theory Spec2Isabelle
  imports Main "HOL-Library.AList" "HOL-Library.Sublist"
begin

section \<open>Python's regular expressions, as far as \<open>preprocess_chatlogs.py\<close> uses them\<close>

text \<open>
  The program works on Python \<open>str\<close> values with \<open>re.findall\<close>. A transcript is modelled
  as a \<open>string\<close>; one \<open>char\<close> stands for one code point below 256. The character classes are
  those of Python 3's \<open>re\<close> on \<open>str\<close> patterns, restricted to these code points:
  \<open>\s\<close> is \<open>str.isspace\<close>, \<open>\d\<close> the decimal digits, \<open>\w\<close> the alphanumeric
  characters and the underscore, and \<open>.\<close> everything but the line feed.
\<close>

definition is_space :: "char \<Rightarrow> bool" where
  "is_space ch = (let n = (of_char ch :: nat) in
     (9 \<le> n \<and> n \<le> 13) \<or> (28 \<le> n \<and> n \<le> 32) \<or> n = 133 \<or> n = 160)"

definition is_digit :: "char \<Rightarrow> bool" where
  "is_digit ch = (let n = (of_char ch :: nat) in 48 \<le> n \<and> n \<le> 57)"

definition is_word :: "char \<Rightarrow> bool" where
  "is_word ch = (let n = (of_char ch :: nat) in
     (48 \<le> n \<and> n \<le> 57) \<or> (65 \<le> n \<and> n \<le> 90) \<or> n = 95 \<or> (97 \<le> n \<and> n \<le> 122)
     \<or> n = 170 \<or> n = 178 \<or> n = 179 \<or> n = 181 \<or> n = 185 \<or> n = 186
     \<or> (188 \<le> n \<and> n \<le> 190) \<or> (192 \<le> n \<and> n \<le> 214)
     \<or> (216 \<le> n \<and> n \<le> 246) \<or> 248 \<le> n)"

text \<open>
  An atom matches exactly one character. Every repetition in the four patterns of
  \<open>__post_init__\<close> is over a single atom, so the pattern syntax has repetition of atoms
  only: \<open>Rep greedy lo hi a\<close> is \<open>a{lo,hi}\<close> (\<open>hi = None\<close> for no upper bound, so
  \<open>a*\<close>, \<open>a+\<close>, \<open>a?\<close> are instances), greedy or lazy (\<open>a*?\<close>). \<open>Grp n r\<close> is the
  \<open>n\<close>-th capturing group and \<open>Eol\<close> is \<open>$\<close> without the MULTILINE flag.
\<close>

datatype atom = Lit char | Space | Digit | Word | Dot

fun atom_ok :: "atom \<Rightarrow> char \<Rightarrow> bool" where
  "atom_ok (Lit x) ch = (ch = x)"
| "atom_ok Space ch = is_space ch"
| "atom_ok Digit ch = is_digit ch"
| "atom_ok Word ch = is_word ch"
| "atom_ok Dot ch = (ch \<noteq> CHR 0x0A)"

datatype regex =
    Atom atom
  | Rep bool nat "nat option" atom
  | Eps
  | Seq regex regex
  | Alt regex regex
  | Grp nat regex
  | Eol

type_synonym caps = "nat \<rightharpoonup> string"

fun below :: "nat option \<Rightarrow> nat option" where
  "below None = None"
| "below (Some h) = Some (h - 1)"

text \<open>
  The matcher is a backtracking one, as Python's is. \<open>matches r s c\<close> lists every way
  \<open>r\<close> can match a prefix of \<open>s\<close>, as the text left over and the groups captured, in the
  order in which backtracking tries them: a greedy repetition takes the longest run first,
  a lazy one the shortest, an alternation its left branch first, and a branch that failed
  leaves no capture behind. The head of the list is the match Python reports.
\<close>

fun rep_greedy :: "atom \<Rightarrow> nat \<Rightarrow> nat option \<Rightarrow> string \<Rightarrow> string list" where
  "rep_greedy a lo hi [] = (if lo = 0 then [[]] else [])"
| "rep_greedy a lo hi (x # xs) =
     (if atom_ok a x \<and> hi \<noteq> Some 0 then rep_greedy a (lo - 1) (below hi) xs else [])
     @ (if lo = 0 then [x # xs] else [])"

fun rep_lazy :: "atom \<Rightarrow> nat \<Rightarrow> nat option \<Rightarrow> string \<Rightarrow> string list" where
  "rep_lazy a lo hi [] = (if lo = 0 then [[]] else [])"
| "rep_lazy a lo hi (x # xs) =
     (if lo = 0 then [x # xs] else [])
     @ (if atom_ok a x \<and> hi \<noteq> Some 0 then rep_lazy a (lo - 1) (below hi) xs else [])"

fun matches :: "regex \<Rightarrow> string \<Rightarrow> caps \<Rightarrow> (string \<times> caps) list" where
  "matches (Atom a) s c = (case s of [] \<Rightarrow> [] | x # xs \<Rightarrow> if atom_ok a x then [(xs, c)] else [])"
| "matches (Rep greedy lo hi a) s c =
     map (\<lambda>s'. (s', c)) (if greedy then rep_greedy a lo hi s else rep_lazy a lo hi s)"
| "matches Eps s c = [(s, c)]"
| "matches (Seq p q) s c = concat (map (\<lambda>(s1, c1). matches q s1 c1) (matches p s c))"
| "matches (Alt p q) s c = matches p s c @ matches q s c"
| "matches (Grp n p) s c =
     map (\<lambda>(s', c'). (s', c'(n \<mapsto> take (length s - length s') s))) (matches p s c)"
| "matches Eol s c = (if s = [] \<or> s = [CHR 0x0A] then [(s, c)] else [])"

text \<open>
  \<open>match_at r must_advance s\<close> is the match of \<open>r\<close> that starts at the head of \<open>s\<close>, if
  there is one. After an empty match \<open>findall\<close> searches again from the same place for a
  match that is not empty (\<open>must_advance\<close>).
\<close>

definition match_at :: "regex \<Rightarrow> bool \<Rightarrow> string \<Rightarrow> (string \<times> caps) option" where
  "match_at r must_advance s =
     (case filter (\<lambda>(s', c). if must_advance then s' \<noteq> s else True) (matches r s Map.empty) of
        [] \<Rightarrow> None
      | m # _ \<Rightarrow> Some m)"

text \<open>
  \<open>re.findall\<close>: the matches from left to right, none overlapping another; a search that
  finds no match at a position goes on one character further. Each match is kept as the
  text it covers and its groups.
\<close>

function findall_from :: "regex \<Rightarrow> bool \<Rightarrow> string \<Rightarrow> (string \<times> caps) list" where
  "findall_from r must_advance s =
     (case match_at r must_advance s of
        Some (s', c) \<Rightarrow>
          (take (length s - length s') s, c) #
            (if s' = s then findall_from r True s else findall_from r False s')
      | None \<Rightarrow> (case s of [] \<Rightarrow> [] | x # xs \<Rightarrow> findall_from r False xs))"
  by pat_completeness auto

text \<open>A group that took no part in the match reads as the empty string.\<close>

definition grp :: "caps \<Rightarrow> nat \<Rightarrow> string" where
  "grp c n = (case c n of None \<Rightarrow> [] | Some x \<Rightarrow> x)"

text \<open>
  What \<open>re.findall\<close> returns depends on the number of groups of the pattern: the matched
  texts for none, the texts of the group for one, tuples of the groups' texts for more.
\<close>

definition findall0 :: "regex \<Rightarrow> string \<Rightarrow> string list" where
  "findall0 r s = map fst (findall_from r False s)"

definition findall1 :: "regex \<Rightarrow> string \<Rightarrow> string list" where
  "findall1 r s = map (\<lambda>(m, c). grp c 1) (findall_from r False s)"

definition findall2 :: "regex \<Rightarrow> string \<Rightarrow> (string \<times> string) list" where
  "findall2 r s = map (\<lambda>(m, c). (grp c 1, grp c 2)) (findall_from r False s)"

fun seqs :: "regex list \<Rightarrow> regex" where
  "seqs [] = Eps"
| "seqs [r] = r"
| "seqs (r # rs) = Seq r (seqs rs)"

definition lits :: "string \<Rightarrow> regex" where
  "lits s = seqs (map (\<lambda>ch. Atom (Lit ch)) s)"

subsection \<open>The patterns of \<open>__post_init__\<close>\<close>

text \<open>\<^verbatim>\<open>regex_agent_name = r'Agent\s(\w+)'\<close>\<close>

definition regex_agent_name :: regex where
  "regex_agent_name = seqs [lits ''Agent'', Atom Space, Grp 1 (Rep True 1 None Word)]"

text \<open>\<^verbatim>\<open>regex_client_name = r'(.*?:\s)'\<close>\<close>

definition regex_client_name :: regex where
  "regex_client_name = Grp 1 (seqs [Rep False 0 None Dot, Atom (Lit CHR '':''), Atom Space])"

text \<open>
  \<^verbatim>\<open>regex_timestamps = r'\(\s\d{0,2}m?\(?d{0,2}s?\s?\d{1,2}s\s\)'\<close>.
  The sixth item is the letter \<open>d\<close>, up to twice: the pattern has no backslash there.
\<close>

definition regex_timestamps :: regex where
  "regex_timestamps = seqs
     [Atom (Lit CHR ''(''), Atom Space, Rep True 0 (Some 2) Digit,
      Rep True 0 (Some 1) (Lit CHR ''m''), Rep True 0 (Some 1) (Lit CHR ''(''),
      Rep True 0 (Some 2) (Lit CHR ''d''), Rep True 0 (Some 1) (Lit CHR ''s''),
      Rep True 0 (Some 1) Space, Rep True 1 (Some 2) Digit,
      Atom (Lit CHR ''s''), Atom Space, Atom (Lit CHR '')'')]"

text \<open>
  \<^verbatim>\<open>regex_with_last_response = r'\d{0,2}s?\s?\d{1,2}s\s\)\s(.*?)\(\s|\s\)\s(.*$)'\<close>.
  The bar binds weakest: the left branch holds group 1, the right branch group 2.
\<close>

definition regex_with_last_response :: regex where
  "regex_with_last_response = Alt
     (seqs [Rep True 0 (Some 2) Digit, Rep True 0 (Some 1) (Lit CHR ''s''),
            Rep True 0 (Some 1) Space, Rep True 1 (Some 2) Digit,
            Atom (Lit CHR ''s''), Atom Space, Atom (Lit CHR '')''), Atom Space,
            Grp 1 (Rep False 0 None Dot), Atom (Lit CHR ''(''), Atom Space])
     (seqs [Atom Space, Atom (Lit CHR '')''), Atom Space,
            Grp 2 (Seq (Rep True 0 None Dot) Eol)])"

section \<open>Strings, errors and the state of \<open>ProcessChatlogs\<close>\<close>

text \<open>
  The exceptions the methods can raise: \<open>re.findall(...)[0]\<close> on no match (IndexError),
  reading the local \<open>actual_client_name\<close> before any assignment (UnboundLocalError, a
  NameError), unpacking \<open>dialogue.keys()\<close> into two names (ValueError) and a missing
  key (KeyError).
\<close>

datatype py_error = IndexError | UnboundLocalError | ValueError | KeyError

text \<open>Python's \<open>sub in s\<close> on strings.\<close>

fun contains :: "string \<Rightarrow> string \<Rightarrow> bool" where
  "contains sub [] = (sub = [])"
| "contains sub (x # xs) = (prefix sub (x # xs) \<or> contains sub xs)"

text \<open>
  Python's \<open>s.replace(old, new)\<close>: every occurrence of \<open>old\<close>, from the left, none
  overlapping another; an empty \<open>old\<close> puts \<open>new\<close> around every character.
\<close>

function replace :: "string \<Rightarrow> string \<Rightarrow> string \<Rightarrow> string" where
  "replace old new s =
     (if old = [] then new @ concat (map (\<lambda>ch. ch # new) s)
      else if prefix old s then new @ replace old new (drop (length old) s)
      else (case s of [] \<Rightarrow> [] | x # xs \<Rightarrow> x # replace old new xs))"
  by pat_completeness auto
termination
  by (relation "measure (\<lambda>(old, new, s). length s)") (auto simp: prefix_def)

declare replace.simps [simp del]

text \<open>
  A turn is \<open>(sentence_index, text, timestamp)\<close>. A \<open>dict\<close> keeps its keys in the order of
  their first insertion and assigning to a key it has replaces the value in place: an
  association list under \<open>AList.update\<close>.
\<close>

type_synonym turn = "nat \<times> string \<times> string"

type_synonym dialogue = "(string \<times> turn list) list"

record process_chatlogs =
  chatlogs :: "string list"
  chat_dict :: "(nat \<times> dialogue) list"
  agent_error_logs :: "string list"
  client_error_logs :: "nat list"

text \<open>The object \<open>ProcessChatlogs(chatlogs)\<close>, its other fields at their defaults.\<close>

definition new_process_chatlogs :: "string list \<Rightarrow> process_chatlogs" where
  "new_process_chatlogs cls =
     \<lparr>chatlogs = cls, chat_dict = [], agent_error_logs = [], client_error_logs = []\<rparr>"

section \<open>The methods\<close>

definition apply_agent_regex :: "string \<Rightarrow> string" where
  "apply_agent_regex chatlog =
     (case findall1 regex_agent_name chatlog of [] \<Rightarrow> ''No agent'' | agent_name # _ \<Rightarrow> agent_name)"

definition apply_client_regex :: "string \<Rightarrow> py_error + string" where
  "apply_client_regex sentence =
     (case findall1 regex_client_name sentence of
        [] \<Rightarrow> Inl IndexError
      | client_name # _ \<Rightarrow> Inr client_name)"

definition apply_timestamp_regex :: "string \<Rightarrow> string list" where
  "apply_timestamp_regex chatlog = findall0 regex_timestamps chatlog"

definition apply_chat_sentence_regex :: "string \<Rightarrow> (string \<times> string) list" where
  "apply_chat_sentence_regex chatlog = findall2 regex_with_last_response chatlog"

text \<open>
  The first inner loop of \<open>acquire_dialogue\<close> (lines 109 to 115): both tests are made for
  every tuple, so a tuple of two empty strings is appended twice.
\<close>

fun collect_sentences :: "(string \<times> string) list \<Rightarrow> string list \<Rightarrow> string list" where
  "collect_sentences [] sentences = sentences"
| "collect_sentences (sentence # rest) sentences =
     collect_sentences rest
       ((sentences @ (if fst sentence = [] then [snd sentence] else []))
          @ (if snd sentence = [] then [fst sentence] else []))"

text \<open>
  The local variables of \<open>acquire_dialogue\<close> that the second inner loop (lines 123 to 139)
  reads and writes. \<open>actual_client_name\<close> is \<open>None\<close> as long as nothing was assigned to it.
  \<open>sentence_step\<close> is the body of that loop for one pair of \<open>zip(sentences, time_stamps)\<close>,
  \<open>sentence_loop\<close> the loop over \<open>enumerate\<close> of them.
\<close>

record locals =
  agent_name :: string
  agent_sentences :: "turn list"
  client_sentences :: "turn list"
  actual_client_name :: "string option"

definition sentence_step :: "nat \<Rightarrow> string \<times> string \<Rightarrow> locals \<Rightarrow> py_error + locals" where
  "sentence_step sentence_index pair v =
     (let sentence = fst pair; timestamp = snd pair in
      case findall1 regex_client_name sentence of
        [] \<Rightarrow> Inl IndexError
      | client_name # _ \<Rightarrow>
          let v1 = (if client_name = ''Klantenservice: ''
                    then v\<lparr>agent_name := ''Klantenservice''\<rparr> else v)
          in if contains (agent_name v1 @ '': '') sentence
             then Inr (v1\<lparr>agent_sentences := agent_sentences v1 @
                          [(sentence_index, replace (agent_name v1 @ '': '') [] sentence, timestamp)]\<rparr>)
             else Inr (v1\<lparr>client_sentences := client_sentences v1 @
                          [(sentence_index, replace client_name [] sentence, timestamp)],
                        actual_client_name := Some client_name\<rparr>))"

fun sentence_loop :: "nat \<Rightarrow> (string \<times> string) list \<Rightarrow> locals \<Rightarrow> py_error + locals" where
  "sentence_loop sentence_index [] v = Inr v"
| "sentence_loop sentence_index (pair # rest) v =
     (case sentence_step sentence_index pair v of
        Inl e \<Rightarrow> Inl e
      | Inr v' \<Rightarrow> sentence_loop (Suc sentence_index) rest v')"

text \<open>
  Lines 99 to 143 of the loop body, for a transcript with an agent: the dialogue built
  for it and the client label it is filed under. The local \<open>actual_client_name\<close> is
  not assigned before the inner loop, so the value \<open>acn\<close> it had after the transcripts
  before comes in, and reading it at line 143 raises when it was never assigned.
\<close>

definition build_dialogue ::
  "string \<Rightarrow> string \<Rightarrow> string option \<Rightarrow> py_error + (dialogue \<times> string)" where
  "build_dialogue chatlog name acn =
     (let chat_sentences = apply_chat_sentence_regex chatlog;
          time_stamps = apply_timestamp_regex chatlog;
          sentences = collect_sentences chat_sentences []
      in case sentence_loop 0 (zip sentences time_stamps)
                \<lparr>agent_name = name, agent_sentences = [], client_sentences = [],
                 actual_client_name = acn\<rparr> of
           Inl e \<Rightarrow> Inl e
         | Inr v \<Rightarrow>
             (case actual_client_name v of
                None \<Rightarrow> Inl UnboundLocalError
              | Some client \<Rightarrow>
                  Inr (AList.update client (client_sentences v)
                         (AList.update (agent_name v) (agent_sentences v) []),
                       client)))"

text \<open>
  The body of the loop over \<open>enumerate(self.chatlogs)\<close> (lines 90 to 147), on the
  object and the local \<open>actual_client_name\<close>.
\<close>

definition chatlog_step ::
  "nat \<Rightarrow> string \<Rightarrow> process_chatlogs \<times> string option
     \<Rightarrow> py_error + (process_chatlogs \<times> string option)" where
  "chatlog_step chat_index chatlog st =
     (let self = fst st; name = apply_agent_regex chatlog in
      if name = ''No agent''
      then Inr (self\<lparr>agent_error_logs := agent_error_logs self @ [chatlog]\<rparr>, snd st)
      else
        (case build_dialogue chatlog name (snd st) of
           Inl e \<Rightarrow> Inl e
         | Inr (sentence_dict, client) \<Rightarrow>
             Inr (self\<lparr>chat_dict := AList.update chat_index sentence_dict (chat_dict self)\<rparr>,
                  Some client)))"

fun chatlog_loop ::
  "nat \<Rightarrow> string list \<Rightarrow> process_chatlogs \<times> string option
     \<Rightarrow> py_error + (process_chatlogs \<times> string option)" where
  "chatlog_loop chat_index [] st = Inr st"
| "chatlog_loop chat_index (chatlog # rest) st =
     (case chatlog_step chat_index chatlog st of
        Inl e \<Rightarrow> Inl e
      | Inr st' \<Rightarrow> chatlog_loop (Suc chat_index) rest st')"

text \<open>
  A method returns its value and the object as it left it, or the exception it raised.
\<close>

definition acquire_dialogue ::
  "process_chatlogs \<Rightarrow> py_error + ((nat \<times> dialogue) list \<times> process_chatlogs)" where
  "acquire_dialogue self =
     (case chatlog_loop 0 (chatlogs self) (self, None) of
        Inl e \<Rightarrow> Inl e
      | Inr (self', _) \<Rightarrow> Inr (chat_dict self', self'))"

fun client_loop :: "(nat \<times> dialogue) list \<Rightarrow> process_chatlogs \<Rightarrow> py_error + process_chatlogs" where
  "client_loop [] self = Inr self"
| "client_loop ((key, dialogue) # rest) self =
     (case map fst dialogue of
        [CSM, KLT] \<Rightarrow>
          (case map_of dialogue KLT of
             None \<Rightarrow> Inl KeyError
           | Some turns \<Rightarrow>
               if length turns = 0
               then client_loop rest (self\<lparr>client_error_logs := client_error_logs self @ [key]\<rparr>)
               else client_loop rest self)
      | _ \<Rightarrow> Inl ValueError)"

definition find_chatlogs_without_client ::
  "process_chatlogs \<Rightarrow> py_error + (nat list \<times> process_chatlogs)" where
  "find_chatlogs_without_client self =
     (case acquire_dialogue self of
        Inl e \<Rightarrow> Inl e
      | Inr (cd, self1) \<Rightarrow>
          (case client_loop cd self1 of
             Inl e \<Rightarrow> Inl e
           | Inr self2 \<Rightarrow> Inr (client_error_logs self2, self2)))"

definition return_chatlogs ::
  "process_chatlogs \<Rightarrow> py_error + ((nat \<times> dialogue) list \<times> process_chatlogs)" where
  "return_chatlogs self =
     (case find_chatlogs_without_client self of
        Inl e \<Rightarrow> Inl e
      | Inr (client_errors, self1) \<Rightarrow>
          Inr (filter (\<lambda>(k, v). k \<notin> set client_errors) (chat_dict self1), self1))"

section \<open>What a pattern can match\<close>

text \<open>
  \<open>sem r s c s' c'\<close>: the pattern \<open>r\<close> can match the prefix of \<open>s\<close> that leaves \<open>s'\<close>,
  taking the captures from \<open>c\<close> to \<open>c'\<close>. It is the set of the results of \<open>matches\<close>,
  without their order.
\<close>

fun upto_opt :: "nat \<Rightarrow> nat option \<Rightarrow> bool" where
  "upto_opt n None = True"
| "upto_opt n (Some h) = (n \<le> h)"

fun sem :: "regex \<Rightarrow> string \<Rightarrow> caps \<Rightarrow> string \<Rightarrow> caps \<Rightarrow> bool" where
  "sem (Atom a) s c s' c' = (c' = c \<and> (\<exists>x. s = x # s' \<and> atom_ok a x))"
| "sem (Rep greedy lo hi a) s c s' c' =
     (c' = c \<and> (\<exists>xs. s = xs @ s' \<and> list_all (atom_ok a) xs \<and> lo \<le> length xs \<and> upto_opt (length xs) hi))"
| "sem Eps s c s' c' = (c' = c \<and> s' = s)"
| "sem (Seq p q) s c s' c' = (\<exists>s1 c1. sem p s c s1 c1 \<and> sem q s1 c1 s' c')"
| "sem (Alt p q) s c s' c' = (sem p s c s' c' \<or> sem q s c s' c')"
| "sem (Grp n p) s c s' c' =
     (\<exists>c1. sem p s c s' c1 \<and> c' = c1(n \<mapsto> take (length s - length s') s))"
| "sem Eol s c s' c' = (c' = c \<and> s' = s \<and> (s = [] \<or> s = [CHR 0x0A]))"


text \<open>
  The words of the specification for a span without a name prefix: no colon followed by
  whitespace anywhere in it.
\<close>

fun colon_space :: "string \<Rightarrow> bool" where
  "colon_space (x # y # ys) = ((x = CHR '':'' \<and> is_space y) \<or> colon_space (y # ys))"
| "colon_space _ = False"

text \<open>A client label, when one was recorded, holds a colon.\<close>

fun label_ok :: "string option \<Rightarrow> bool" where
  "label_ok None = True"
| "label_ok (Some x) = (CHR '':'' \<in> set x)"

text \<open>What lines 111 to 115 append for one tuple.\<close>

definition pick :: "string \<times> string \<Rightarrow> string list" where
  "pick sentence =
     (if fst sentence = [] then [snd sentence] else []) @ (if snd sentence = [] then [fst sentence] else [])"

text \<open>
  The keys that \<open>find_chatlogs_without_client\<close> appends when it walks a \<open>chat_dict\<close>
  without raising.
\<close>

fun empties :: "(nat \<times> dialogue) list \<Rightarrow> nat list" where
  "empties [] = []"
| "empties ((key, dialogue) # rest) =
     (case map fst dialogue of
        [CSM, KLT] \<Rightarrow>
          (case map_of dialogue KLT of
             None \<Rightarrow> []
           | Some turns \<Rightarrow> if length turns = 0 then [key] else [])
      | _ \<Rightarrow> []) @ empties rest"

section \<open>Properties of the matcher\<close>

lemma in_rep_greedy:
  "s' \<in> set (rep_greedy a lo hi s) \<longleftrightarrow>
     (\<exists>xs. s = xs @ s' \<and> list_all (atom_ok a) xs \<and> lo \<le> length xs \<and> upto_opt (length xs) hi)"
proof (induction a lo hi s rule: rep_greedy.induct)
  case (1 a lo hi)
  then show ?case by (cases hi) auto
next
  case (2 a lo hi x xs)
  show ?case
  proof
    assume "s' \<in> set (rep_greedy a lo hi (x # xs))"
    then consider
        (step) "atom_ok a x" "hi \<noteq> Some 0" "s' \<in> set (rep_greedy a (lo - 1) (below hi) xs)"
      | (stop) "lo = 0" "s' = x # xs"
      by (auto split: if_splits)
    then show "\<exists>ys. x # xs = ys @ s' \<and> list_all (atom_ok a) ys \<and> lo \<le> length ys \<and> upto_opt (length ys) hi"
    proof cases
      case step
      with 2 obtain ys where ys: "xs = ys @ s'" "list_all (atom_ok a) ys" "lo - 1 \<le> length ys"
          "upto_opt (length ys) (below hi)"
        by auto
      have "upto_opt (length (x # ys)) hi"
        using ys(4) step(2) by (cases hi) auto
      with ys step(1) show ?thesis
        by (intro exI [of _ "x # ys"]) auto
    next
      case stop
      then show ?thesis
        by (intro exI [of _ "[]"]) (cases hi; simp)
    qed
  next
    assume "\<exists>ys. x # xs = ys @ s' \<and> list_all (atom_ok a) ys \<and> lo \<le> length ys \<and> upto_opt (length ys) hi"
    then obtain ys where ys: "x # xs = ys @ s'" "list_all (atom_ok a) ys" "lo \<le> length ys"
        "upto_opt (length ys) hi"
      by blast
    show "s' \<in> set (rep_greedy a lo hi (x # xs))"
    proof (cases ys)
      case Nil
      with ys have "lo = 0" "s' = x # xs" by auto
      then show ?thesis by simp
    next
      case (Cons y zs)
      with ys have ok: "atom_ok a x" "xs = zs @ s'" "list_all (atom_ok a) zs" "lo - 1 \<le> length zs"
        by auto
      from ys(4) Cons have hi: "hi \<noteq> Some 0" "upto_opt (length zs) (below hi)"
        by (cases hi; simp)+
      from ok hi 2 have "s' \<in> set (rep_greedy a (lo - 1) (below hi) xs)"
        by auto
      with ok(1) hi(1) show ?thesis by simp
    qed
  qed
qed

lemma in_rep_lazy:
  "s' \<in> set (rep_lazy a lo hi s) \<longleftrightarrow> s' \<in> set (rep_greedy a lo hi s)"
  by (induction a lo hi s rule: rep_lazy.induct) auto

lemma in_matches: "(s', c') \<in> set (matches r s c) \<longleftrightarrow> sem r s c s' c'"
proof (induction r arbitrary: s c s' c')
  case (Atom a)
  show ?case by (cases s) auto
next
  case (Rep g lo hi a)
  show ?case by (auto simp: in_rep_lazy in_rep_greedy)
next
  case (Grp n r)
  show ?case
  proof
    assume "(s', c') \<in> set (matches (Grp n r) s c)"
    then obtain c1 where "(s', c1) \<in> set (matches r s c)"
        "c' = c1(n \<mapsto> take (length s - length s') s)"
      by auto
    with Grp show "sem (Grp n r) s c s' c'" by auto
  next
    assume "sem (Grp n r) s c s' c'"
    then obtain c1 where c1: "sem r s c s' c1" "c' = c1(n \<mapsto> take (length s - length s') s)"
      by auto
    with Grp have "(s', c1) \<in> set (matches r s c)" by simp
    with c1(2) show "(s', c') \<in> set (matches (Grp n r) s c)"
      by (force simp: image_iff)
  qed
next
  case (Seq p q)
  have "(s', c') \<in> set (matches (Seq p q) s c) \<longleftrightarrow>
      (\<exists>s1 c1. (s1, c1) \<in> set (matches p s c) \<and> (s', c') \<in> set (matches q s1 c1))"
    by auto
  then show ?case by (simp add: Seq)
qed auto

lemma sem_suffix: "sem r s c s' c' \<Longrightarrow> \<exists>p. s = p @ s'"
  by (induction r arbitrary: s c s' c') (auto, force)


lemma match_at_Some:
  assumes "match_at r adv s = Some (s', c)"
  shows "sem r s Map.empty s' c" and "adv \<Longrightarrow> s' \<noteq> s"
proof -
  from assms obtain ms where
    "filter (\<lambda>(s', c). if adv then s' \<noteq> s else True) (matches r s Map.empty) = (s', c) # ms"
    by (auto simp: match_at_def split: list.splits)
  then have "(s', c) \<in> set (filter (\<lambda>(s', c). if adv then s' \<noteq> s else True) (matches r s Map.empty))"
    by simp
  then have m: "(s', c) \<in> set (matches r s Map.empty)" and a: "if adv then s' \<noteq> s else True"
    by auto
  from m show "sem r s Map.empty s' c" by (simp add: in_matches)
  from a show "adv \<Longrightarrow> s' \<noteq> s" by simp
qed

lemma match_at_shorter:
  assumes "match_at r adv s = Some (s', c)"
  shows "(s' = s \<and> \<not> adv) \<or> length s' < length s"
proof -
  from match_at_Some(1) [OF assms] obtain p where "s = p @ s'"
    using sem_suffix by blast
  with match_at_Some(2) [OF assms] show ?thesis by (cases p) auto
qed

termination findall_from
  by (relation "measures [\<lambda>(r, adv, s). length s, \<lambda>(r, adv, s). if adv then 0 else 1]")
     (auto dest: match_at_shorter)

declare findall_from.simps [simp del]

lemma findall_from_sem:
  "(m, c) \<in> set (findall_from r adv s) \<Longrightarrow>
     \<exists>t s'. suffix t s \<and> sem r t Map.empty s' c \<and> t = m @ s'"
proof (induction r adv s rule: findall_from.induct)
  case (1 r adv s)
  show ?case
  proof (cases "match_at r adv s")
    case None
    with "1.prems" obtain x xs where s: "s = x # xs" and "(m, c) \<in> set (findall_from r False xs)"
      by (subst (asm) findall_from.simps) (auto split: list.splits)
    with "1.IH" None obtain t s' where "suffix t xs" "sem r t Map.empty s' c" "t = m @ s'"
      by blast
    with s show ?thesis by (auto intro: suffix_ConsI)
  next
    case (Some a)
    obtain s1 c1 where a: "a = (s1, c1)" by (cases a)
    from match_at_Some(1) Some a have sem1: "sem r s Map.empty s1 c1" by blast
    then obtain p where p: "s = p @ s1" using sem_suffix by blast
    from "1.prems" Some a consider
        (here) "m = take (length s - length s1) s" "c = c1"
      | (again) "s1 = s" "(m, c) \<in> set (findall_from r True s)"
      | (later) "s1 \<noteq> s" "(m, c) \<in> set (findall_from r False s1)"
      by (subst (asm) findall_from.simps) (auto split: if_splits)
    then show ?thesis
    proof cases
      case here
      with p sem1 show ?thesis by (intro exI [of _ s] exI [of _ s1]) auto
    next
      case again
      with "1.IH" Some a show ?thesis by blast
    next
      case later
      with "1.IH" Some a obtain t s' where
        "suffix t s1" "sem r t Map.empty s' c" "t = m @ s'" by blast
      then have "suffix t s1 \<and> sem r t Map.empty s' c \<and> t = m @ s'" by simp
      moreover from p have "suffix s1 s" by (simp add: suffix_def)
      ultimately show ?thesis using suffix_order.trans by blast
    qed
  qed
qed

section \<open>What the four patterns capture\<close>

lemma not_word_colon: "\<not> is_word CHR '':''"
  by (simp add: is_word_def)

lemma findall1_sem:
  assumes "x \<in> set (findall1 r s)"
  obtains t s' c where "suffix t s" "sem r t Map.empty s' c" "x = grp c 1"
proof -
  from assms obtain m c where "(m, c) \<in> set (findall_from r False s)" "x = grp c 1"
    by (auto simp: findall1_def)
  with findall_from_sem that show thesis by blast
qed

lemma agent_name_word:
  assumes "x \<in> set (findall1 regex_agent_name s)"
  shows "x \<noteq> [] \<and> list_all is_word x"
proof -
  from assms obtain t s' c where sem: "sem regex_agent_name t Map.empty s' c" and x: "x = grp c 1"
    by (rule findall1_sem)
  from sem obtain xs where "list_all is_word xs" "1 \<le> length xs" "c = [1 \<mapsto> xs]"
    by (auto simp: regex_agent_name_def lits_def list_all_iff)
  with x show ?thesis by (auto simp: grp_def)
qed

lemma colon_space_append: "is_space w \<Longrightarrow> colon_space (xs @ CHR '':'' # w # ys)"
  by (induction xs rule: colon_space.induct) auto

lemma colon_space_Cons: "colon_space s \<Longrightarrow> colon_space (x # s)"
  by (cases s) auto

lemma colon_space_suffix: "suffix t s \<Longrightarrow> colon_space t \<Longrightarrow> colon_space s"
proof -
  have "colon_space t \<Longrightarrow> colon_space (p @ t)" for p
    by (induction p) (auto intro: colon_space_Cons)
  then show "suffix t s \<Longrightarrow> colon_space t \<Longrightarrow> colon_space s"
    by (auto simp: suffix_def)
qed

lemma client_name_shape:
  assumes "x \<in> set (findall1 regex_client_name s)"
  shows "\<exists>xs w. x = xs @ [CHR '':'', w] \<and> is_space w" and "colon_space s"
proof -
  from assms obtain t s' c where t: "suffix t s" and sem: "sem regex_client_name t Map.empty s' c"
    and x: "x = grp c 1"
    by (rule findall1_sem)
  from sem obtain xs w where tt: "t = xs @ CHR '':'' # w # s'" and w: "is_space w"
      and c: "c = Map.empty(1 \<mapsto> take (length t - length s') t)"
    by (auto simp: regex_client_name_def)
  from tt c x have "x = xs @ [CHR '':'', w]" by (simp add: grp_def)
  with w show "\<exists>xs w. x = xs @ [CHR '':'', w] \<and> is_space w" by blast
  from tt w have "colon_space t" by (simp add: colon_space_append)
  with t show "colon_space s" by (rule colon_space_suffix)
qed

lemma slots_not_both:
  assumes "(g1, g2) \<in> set (findall2 regex_with_last_response s)"
  shows "g1 = [] \<or> g2 = []"
proof -
  from assms obtain m c where "(m, c) \<in> set (findall_from regex_with_last_response False s)"
      and g: "g1 = grp c 1" "g2 = grp c 2"
    by (auto simp: findall2_def)
  with findall_from_sem obtain t s' where "sem regex_with_last_response t Map.empty s' c"
    by blast
  then have "c 1 = None \<or> c 2 = None"
    by (auto simp: regex_with_last_response_def)
  with g show ?thesis by (auto simp: grp_def)
qed

section \<open>The loop over the pairs of one transcript\<close>

lemma collect_sentences_eq: "collect_sentences cs acc = acc @ concat (map pick cs)"
  by (induction cs arbitrary: acc) (simp_all add: pick_def)

lemma sentence_step_error: "sentence_step k pair v = Inl e \<Longrightarrow> e = IndexError"
  by (auto simp: sentence_step_def Let_def split: list.splits if_splits)

lemma sentence_step_no_colon: "\<not> colon_space (fst pair) \<Longrightarrow> sentence_step k pair v = Inl IndexError"
proof -
  assume n: "\<not> colon_space (fst pair)"
  have "findall1 regex_client_name (fst pair) = []"
  proof (cases "findall1 regex_client_name (fst pair)")
    case (Cons x xs)
    then have "x \<in> set (findall1 regex_client_name (fst pair))" by simp
    with client_name_shape(2) n show ?thesis by blast
  qed simp
  then show ?thesis by (simp add: sentence_step_def)
qed

lemma sentence_step_count:
  "sentence_step k pair v = Inr v' \<Longrightarrow>
     length (agent_sentences v') + length (client_sentences v')
       = Suc (length (agent_sentences v) + length (client_sentences v))"
  by (auto simp: sentence_step_def Let_def split: list.splits if_splits)

lemma sentence_step_agent:
  "sentence_step k pair v = Inr v' \<Longrightarrow>
     agent_name v' = (if apply_client_regex (fst pair) = Inr ''Klantenservice: ''
                      then ''Klantenservice'' else agent_name v)"
  by (auto simp: sentence_step_def apply_client_regex_def Let_def split: list.splits if_splits)

lemma sentence_step_label:
  "sentence_step k pair v = Inr v' \<Longrightarrow> label_ok (actual_client_name v) \<Longrightarrow>
     label_ok (actual_client_name v')"
proof -
  assume a: "sentence_step k pair v = Inr v'" and l: "label_ok (actual_client_name v)"
  from a obtain x xs where f: "findall1 regex_client_name (fst pair) = x # xs"
    by (auto simp: sentence_step_def Let_def split: list.splits)
  then have "x \<in> set (findall1 regex_client_name (fst pair))" by simp
  with client_name_shape(1) have "CHR '':'' \<in> set x" by fastforce
  with a l f show ?thesis
    by (auto simp: sentence_step_def Let_def split: if_splits)
qed


lemma sentence_loop_append:
  "sentence_loop k (xs @ ys) v =
     (case sentence_loop k xs v of Inl e \<Rightarrow> Inl e | Inr v1 \<Rightarrow> sentence_loop (k + length xs) ys v1)"
  by (induction xs arbitrary: k v) (auto split: sum.splits)

lemma sentence_loop_error: "sentence_loop k ps v = Inl e \<Longrightarrow> e = IndexError"
  by (induction ps arbitrary: k v) (auto split: sum.splits dest: sentence_step_error)

lemma sentence_loop_no_colon:
  "\<exists>pair \<in> set ps. \<not> colon_space (fst pair) \<Longrightarrow> sentence_loop k ps v = Inl IndexError"
proof (induction ps arbitrary: k v)
  case (Cons p ps)
  show ?case
  proof (cases "sentence_step k p v")
    case (Inl e)
    then show ?thesis by (simp add: sentence_step_error)
  next
    case (Inr v1)
    with sentence_step_no_colon have "colon_space (fst p)" by fastforce
    with Cons Inr show ?thesis by auto
  qed
qed simp

lemma sentence_loop_count:
  "sentence_loop k ps v = Inr v' \<Longrightarrow>
     length (agent_sentences v') + length (client_sentences v')
       = length (agent_sentences v) + length (client_sentences v) + length ps"
proof (induction ps arbitrary: k v)
  case (Cons p ps)
  then obtain v1 where s: "sentence_step k p v = Inr v1" and l: "sentence_loop (Suc k) ps v1 = Inr v'"
    by (auto split: sum.splits)
  from Cons.IH [OF l] sentence_step_count [OF s] show ?case by simp
qed simp

lemma sentence_loop_agent_word:
  "sentence_loop k ps v = Inr v' \<Longrightarrow> list_all is_word (agent_name v) \<Longrightarrow> list_all is_word (agent_name v')"
proof (induction ps arbitrary: k v)
  case (Cons p ps)
  then obtain v1 where s: "sentence_step k p v = Inr v1" and l: "sentence_loop (Suc k) ps v1 = Inr v'"
    by (auto split: sum.splits)
  have "list_all is_word ''Klantenservice''" by (simp add: is_word_def)
  with sentence_step_agent [OF s] Cons.prems(2) have "list_all is_word (agent_name v1)"
    by (simp split: if_splits)
  with Cons.IH [OF l] show ?case .
qed simp

lemma sentence_loop_label:
  "sentence_loop k ps v = Inr v' \<Longrightarrow> label_ok (actual_client_name v) \<Longrightarrow> label_ok (actual_client_name v')"
proof (induction ps arbitrary: k v)
  case (Cons p ps)
  then obtain v1 where s: "sentence_step k p v = Inr v1" and l: "sentence_loop (Suc k) ps v1 = Inr v'"
    by (auto split: sum.splits)
  from Cons.IH [OF l] sentence_step_label [OF s] Cons.prems(2) show ?case by simp
qed simp

lemma sentence_loop_alias_kept:
  "sentence_loop k ps v = Inr v' \<Longrightarrow> agent_name v = ''Klantenservice'' \<Longrightarrow> agent_name v' = ''Klantenservice''"
proof (induction ps arbitrary: k v)
  case (Cons p ps)
  then obtain v1 where s: "sentence_step k p v = Inr v1" and l: "sentence_loop (Suc k) ps v1 = Inr v'"
    by (auto split: sum.splits)
  from sentence_step_agent [OF s] Cons.prems(2) have "agent_name v1 = ''Klantenservice''"
    by (simp split: if_splits)
  with Cons.IH [OF l] show ?case .
qed simp

lemma sentence_loop_alias:
  "sentence_loop k ps v = Inr v' \<Longrightarrow> pair \<in> set ps \<Longrightarrow>
     apply_client_regex (fst pair) = Inr ''Klantenservice: '' \<Longrightarrow> agent_name v' = ''Klantenservice''"
proof (induction ps arbitrary: k v)
  case (Cons p ps)
  then obtain v1 where s: "sentence_step k p v = Inr v1" and l: "sentence_loop (Suc k) ps v1 = Inr v'"
    by (auto split: sum.splits)
  show ?case
  proof (cases "pair = p")
    case True
    with sentence_step_agent [OF s] Cons.prems(3) have "agent_name v1 = ''Klantenservice''" by simp
    with l show ?thesis by (rule sentence_loop_alias_kept)
  next
    case False
    with Cons.prems(2) have "pair \<in> set ps" by simp
    with Cons.IH [OF l] Cons.prems(3) show ?thesis by simp
  qed
qed simp



section \<open>The dialogue of one transcript\<close>

lemma apply_agent_regex_none:
  "(apply_agent_regex c = ''No agent'') = (findall1 regex_agent_name c = [])"
proof (cases "findall1 regex_agent_name c")
  case Nil
  then show ?thesis by (simp add: apply_agent_regex_def)
next
  case (Cons x xs)
  then have "x \<in> set (findall1 regex_agent_name c)" by simp
  then have "list_all is_word x" using agent_name_word by blast
  moreover have "\<not> list_all is_word ''No agent''" by (simp add: is_word_def)
  ultimately have "x \<noteq> ''No agent''" by blast
  with Cons show ?thesis by (simp add: apply_agent_regex_def)
qed

lemma apply_agent_regex_word:
  "apply_agent_regex c \<noteq> ''No agent'' \<Longrightarrow> list_all is_word (apply_agent_regex c)"
proof -
  assume "apply_agent_regex c \<noteq> ''No agent''"
  then obtain x xs where f: "findall1 regex_agent_name c = x # xs"
    by (cases "findall1 regex_agent_name c") (auto simp: apply_agent_regex_def)
  then have "x \<in> set (findall1 regex_agent_name c)" by simp
  then have "list_all is_word x" using agent_name_word by blast
  with f show ?thesis by (simp add: apply_agent_regex_def)
qed

lemma pick_nonempty:
  assumes "\<forall>(a, b) \<in> set cs. a = [] \<or> b = []"
  shows "length cs \<le> length (concat (map pick cs))"
  using assms by (induction cs) (auto simp: pick_def)

lemma pick_single:
  assumes "\<forall>(a, b) \<in> set cs. a = [] \<or> b = []" and "([], []) \<notin> set cs"
  shows "length (concat (map pick cs)) = length cs"
  using assms by (induction cs) (auto simp: pick_def)

lemma pick_empty_early:
  assumes "\<forall>(a, b) \<in> set cs. a = [] \<or> b = []" and "([], []) \<in> set cs"
  shows "[] \<in> set (take (length cs) (concat (map pick cs)))"
  using assms
proof (induction cs)
  case (Cons x cs)
  show ?case
  proof (cases "x = ([], [])")
    case True
    then show ?thesis by (simp add: pick_def)
  next
    case False
    with Cons.prems obtain y where y: "pick x = [y]" and "([], []) \<in> set cs"
      by (cases x) (auto simp: pick_def)
    with Cons have "[] \<in> set (take (length cs) (concat (map pick cs)))" by simp
    with y show ?thesis by simp
  qed
qed simp

lemma sentence_loop_paired_colon:
  assumes "sentence_loop k (zip xs ts) v = Inr v'" and "x \<in> set (take (length ts) xs)"
  shows "colon_space x"
proof (rule ccontr)
  assume n: "\<not> colon_space x"
  have "take (min (length xs) (length ts)) xs = take (length ts) xs" by (simp add: min_def)
  with assms(2) have "x \<in> set (map fst (zip xs ts))" by (simp add: map_fst_zip_take)
  then obtain pair where "pair \<in> set (zip xs ts)" "fst pair = x" by auto
  with n have "\<exists>pair \<in> set (zip xs ts). \<not> colon_space (fst pair)" by blast
  with sentence_loop_no_colon assms(1) show False by fastforce
qed

lemma paired_count:
  assumes ok: "sentence_loop k (zip (concat (map pick cs)) ts) v = Inr v'"
    and slots: "\<forall>(a, b) \<in> set cs. a = [] \<or> b = []"
  shows "length (zip (concat (map pick cs)) ts) = min (length cs) (length ts)"
proof (cases "length ts \<le> length cs")
  case True
  with pick_nonempty [OF slots] show ?thesis by simp
next
  case False
  have "([], []) \<notin> set cs"
  proof
    assume "([], []) \<in> set cs"
    with slots have "[] \<in> set (take (length cs) (concat (map pick cs)))"
      by (rule pick_empty_early)
    with False have "[] \<in> set (take (length ts) (concat (map pick cs)))"
      using set_take_subset_set_take [of "length cs" "length ts"] by fastforce
    with ok have "colon_space []" by (rule sentence_loop_paired_colon)
    then show False by simp
  qed
  with slots have "length (concat (map pick cs)) = length cs" by (rule pick_single)
  then show ?thesis by simp
qed

lemma build_dialogue_Inr:
  assumes "build_dialogue c name acn = Inr (d, client)"
  obtains v where
    "sentence_loop 0 (zip (concat (map pick (apply_chat_sentence_regex c))) (apply_timestamp_regex c))
       \<lparr>agent_name = name, agent_sentences = [], client_sentences = [], actual_client_name = acn\<rparr> = Inr v"
    "actual_client_name v = Some client"
    "d = AList.update client (client_sentences v) [(agent_name v, agent_sentences v)]"
  using assms
  by (auto simp: build_dialogue_def Let_def collect_sentences_eq split: sum.splits option.splits)

lemma build_dialogue_shape:
  assumes b: "build_dialogue c name acn = Inr (d, client)"
    and w: "list_all is_word name" and l: "label_ok acn"
  shows "\<exists>a al kl. d = [(a, al), (client, kl)] \<and> a \<noteq> client
           \<and> length al + length kl
               = min (length (apply_chat_sentence_regex c)) (length (apply_timestamp_regex c))"
    and "label_ok (Some client)"
proof -
  let ?ps = "zip (concat (map pick (apply_chat_sentence_regex c))) (apply_timestamp_regex c)"
  let ?v0 = "\<lparr>agent_name = name, agent_sentences = [], client_sentences = [], actual_client_name = acn\<rparr>"
  from b obtain v where v: "sentence_loop 0 ?ps ?v0 = Inr v" "actual_client_name v = Some client"
      "d = AList.update client (client_sentences v) [(agent_name v, agent_sentences v)]"
    by (rule build_dialogue_Inr)
  from sentence_loop_label [OF v(1)] l v(2) show lab: "label_ok (Some client)" by simp
  from sentence_loop_agent_word [OF v(1)] w have "list_all is_word (agent_name v)" by simp
  with lab not_word_colon have ne: "agent_name v \<noteq> client" by (auto simp: list_all_iff)
  have "\<forall>(a, b) \<in> set (apply_chat_sentence_regex c). a = [] \<or> b = []"
    using slots_not_both by (auto simp: apply_chat_sentence_regex_def)
  with v(1) have "length ?ps = min (length (apply_chat_sentence_regex c)) (length (apply_timestamp_regex c))"
    by (rule paired_count)
  with sentence_loop_count [OF v(1)]
  have "length (agent_sentences v) + length (client_sentences v)
          = min (length (apply_chat_sentence_regex c)) (length (apply_timestamp_regex c))"
    by simp
  with ne v(3) show "\<exists>a al kl. d = [(a, al), (client, kl)] \<and> a \<noteq> client
           \<and> length al + length kl
               = min (length (apply_chat_sentence_regex c)) (length (apply_timestamp_regex c))"
    by simp
qed

section \<open>The loop over the transcripts\<close>

lemma chatlog_step_no_agent:
  "findall1 regex_agent_name c = [] \<Longrightarrow>
     chatlog_step k c st = Inr ((fst st)\<lparr>agent_error_logs := agent_error_logs (fst st) @ [c]\<rparr>, snd st)"
  by (simp add: chatlog_step_def apply_agent_regex_none Let_def)

lemma chatlog_step_agent:
  "findall1 regex_agent_name c \<noteq> [] \<Longrightarrow>
     chatlog_step k c st =
       (case build_dialogue c (apply_agent_regex c) (snd st) of
          Inl e \<Rightarrow> Inl e
        | Inr (d, client) \<Rightarrow>
            Inr ((fst st)\<lparr>chat_dict := AList.update k d (chat_dict (fst st))\<rparr>, Some client))"
  by (simp add: chatlog_step_def apply_agent_regex_none Let_def)

lemma chatlog_step_frame:
  assumes "chatlog_step k c st = Inr st'"
  shows "chatlogs (fst st') = chatlogs (fst st)"
    and "client_error_logs (fst st') = client_error_logs (fst st)"
    and "agent_error_logs (fst st') =
           agent_error_logs (fst st) @ (if findall1 regex_agent_name c = [] then [c] else [])"
    and "i \<noteq> k \<Longrightarrow> map_of (chat_dict (fst st')) i = map_of (chat_dict (fst st)) i"
    and "label_ok (snd st) \<Longrightarrow> label_ok (snd st')"
proof -
  show "chatlogs (fst st') = chatlogs (fst st)"
    using assms by (cases "findall1 regex_agent_name c = []")
      (auto simp: chatlog_step_no_agent chatlog_step_agent split: sum.splits)
  show "client_error_logs (fst st') = client_error_logs (fst st)"
    using assms by (cases "findall1 regex_agent_name c = []")
      (auto simp: chatlog_step_no_agent chatlog_step_agent split: sum.splits)
  show "agent_error_logs (fst st') =
           agent_error_logs (fst st) @ (if findall1 regex_agent_name c = [] then [c] else [])"
    using assms by (cases "findall1 regex_agent_name c = []")
      (auto simp: chatlog_step_no_agent chatlog_step_agent split: sum.splits)
  show "i \<noteq> k \<Longrightarrow> map_of (chat_dict (fst st')) i = map_of (chat_dict (fst st)) i"
    using assms by (cases "findall1 regex_agent_name c = []")
      (auto simp: chatlog_step_no_agent chatlog_step_agent update_conv' split: sum.splits)
  show "label_ok (snd st')" if l: "label_ok (snd st)"
  proof (cases "findall1 regex_agent_name c = []")
    case True
    with assms l show ?thesis by (auto simp: chatlog_step_no_agent)
  next
    case False
    with assms obtain d client where b: "build_dialogue c (apply_agent_regex c) (snd st) = Inr (d, client)"
        and s: "snd st' = Some client"
      by (auto simp: chatlog_step_agent split: sum.splits)
    from False have "list_all is_word (apply_agent_regex c)"
      by (simp add: apply_agent_regex_word apply_agent_regex_none)
    with build_dialogue_shape(2) [OF b] l s show ?thesis by simp
  qed
qed

lemma chatlog_loop_append:
  "chatlog_loop k (xs @ ys) st =
     (case chatlog_loop k xs st of Inl e \<Rightarrow> Inl e | Inr st1 \<Rightarrow> chatlog_loop (k + length xs) ys st1)"
  by (induction xs arbitrary: k st) (auto split: sum.splits)

lemma chatlog_loop_frame:
  assumes "chatlog_loop k cls st = Inr st'"
  shows "chatlogs (fst st') = chatlogs (fst st)"
    and "client_error_logs (fst st') = client_error_logs (fst st)"
    and "agent_error_logs (fst st') =
           agent_error_logs (fst st) @ filter (\<lambda>c. findall1 regex_agent_name c = []) cls"
    and "i < k \<or> k + length cls \<le> i \<Longrightarrow> map_of (chat_dict (fst st')) i = map_of (chat_dict (fst st)) i"
    and "label_ok (snd st) \<Longrightarrow> label_ok (snd st')"
  using assms
proof (induction cls arbitrary: k st)
  case Nil
  { case 1 then show ?case by simp }
  { case 2 then show ?case by simp }
  { case 3 then show ?case by simp }
  { case 4 then show ?case by simp }
  { case 5 then show ?case by simp }
next
  case (Cons c cls)
  { case 1
    then obtain st1 where s: "chatlog_step k c st = Inr st1" and l: "chatlog_loop (Suc k) cls st1 = Inr st'"
      by (auto split: sum.splits)
    from Cons.IH(1) [OF l] chatlog_step_frame(1) [OF s] show ?case by simp }
  { case 2
    then obtain st1 where s: "chatlog_step k c st = Inr st1" and l: "chatlog_loop (Suc k) cls st1 = Inr st'"
      by (auto split: sum.splits)
    from Cons.IH(2) [OF l] chatlog_step_frame(2) [OF s] show ?case by simp }
  { case 3
    then obtain st1 where s: "chatlog_step k c st = Inr st1" and l: "chatlog_loop (Suc k) cls st1 = Inr st'"
      by (auto split: sum.splits)
    from Cons.IH(3) [OF l] chatlog_step_frame(3) [OF s] show ?case by simp }
  { case 4
    then obtain st1 where s: "chatlog_step k c st = Inr st1" and l: "chatlog_loop (Suc k) cls st1 = Inr st'"
      by (auto split: sum.splits)
    from 4(1) have "i < Suc k \<or> Suc k + length cls \<le> i" "i \<noteq> k" by auto
    with Cons.IH(4) [OF _ l] chatlog_step_frame(4) [OF s] show ?case by simp }
  { case 5
    then obtain st1 where s: "chatlog_step k c st = Inr st1" and l: "chatlog_loop (Suc k) cls st1 = Inr st'"
      by (auto split: sum.splits)
    from Cons.IH(5) [OF _ l] chatlog_step_frame(5) [OF s] 5(1) show ?case by simp }
qed

lemma chatlog_loop_entry:
  assumes run: "chatlog_loop k cls st = Inr st'" and j: "j < length cls"
    and agent: "findall1 regex_agent_name (cls ! j) \<noteq> []" and lab: "label_ok (snd st)"
  shows "\<exists>acn d client. label_ok acn
           \<and> build_dialogue (cls ! j) (apply_agent_regex (cls ! j)) acn = Inr (d, client)
           \<and> map_of (chat_dict (fst st')) (k + j) = Some d"
proof -
  from j have split: "cls = take j cls @ cls ! j # drop (Suc j) cls"
    by (rule id_take_nth_drop)
  from j have len: "length (take j cls) = j" by simp
  from run obtain st1 where
      pre: "chatlog_loop k (take j cls) st = Inr st1"
      and rest: "chatlog_loop (k + j) (cls ! j # drop (Suc j) cls) st1 = Inr st'"
    using chatlog_loop_append [of k "take j cls" "cls ! j # drop (Suc j) cls" st] split len
    by (auto split: sum.splits)
  from rest obtain st2 where
      step: "chatlog_step (k + j) (cls ! j) st1 = Inr st2"
      and post: "chatlog_loop (Suc (k + j)) (drop (Suc j) cls) st2 = Inr st'"
    by (auto split: sum.splits)
  from chatlog_loop_frame(5) [OF pre] lab have lab1: "label_ok (snd st1)" by simp
  from step agent obtain d client where
      b: "build_dialogue (cls ! j) (apply_agent_regex (cls ! j)) (snd st1) = Inr (d, client)"
      and st2: "chat_dict (fst st2) = AList.update (k + j) d (chat_dict (fst st1))"
    by (auto simp: chatlog_step_agent split: sum.splits)
  from st2 have "map_of (chat_dict (fst st2)) (k + j) = Some d"
    by (simp add: update_conv')
  with chatlog_loop_frame(4) [OF post, of "k + j"]
  have "map_of (chat_dict (fst st')) (k + j) = Some d" by simp
  with lab1 b show ?thesis by blast
qed

lemma chatlog_loop_rerun:
  assumes "chatlog_loop k cls (self, acn) = Inr (self', acn')"
    and "\<forall>i. k \<le> i \<longrightarrow> map_of (chat_dict t) i = map_of (chat_dict self') i"
  shows "chatlog_loop k cls (t, acn) =
           Inr (t\<lparr>agent_error_logs :=
                    agent_error_logs t @ filter (\<lambda>c. findall1 regex_agent_name c = []) cls\<rparr>, acn')"
  using assms
proof (induction cls arbitrary: k self t acn)
  case Nil
  then show ?case by simp
next
  case (Cons c cls)
  from Cons.prems(1) obtain st1 where
      s: "chatlog_step k c (self, acn) = Inr st1" and l: "chatlog_loop (Suc k) cls st1 = Inr (self', acn')"
    by (auto split: sum.splits)
  obtain self1 acn1 where st1: "st1 = (self1, acn1)" by (cases st1)
  from Cons.prems(2) have later: "\<forall>i. Suc k \<le> i \<longrightarrow> map_of (chat_dict t) i = map_of (chat_dict self') i"
    by simp
  show ?case
  proof (cases "findall1 regex_agent_name c = []")
    case True
    let ?t1 = "t\<lparr>agent_error_logs := agent_error_logs t @ [c]\<rparr>"
    from True s st1 have "acn1 = acn" by (simp add: chatlog_step_no_agent)
    with l st1 have l': "chatlog_loop (Suc k) cls (self1, acn) = Inr (self', acn')" by simp
    from later have "\<forall>i. Suc k \<le> i \<longrightarrow> map_of (chat_dict ?t1) i = map_of (chat_dict self') i"
      by simp
    with Cons.IH [OF l'] have
      "chatlog_loop (Suc k) cls (?t1, acn) =
         Inr (?t1\<lparr>agent_error_logs :=
                    agent_error_logs ?t1 @ filter (\<lambda>c. findall1 regex_agent_name c = []) cls\<rparr>, acn')"
      by blast
    with True show ?thesis by (simp add: chatlog_step_no_agent)
  next
    case False
    with s st1 obtain d client where
        b: "build_dialogue c (apply_agent_regex c) acn = Inr (d, client)"
        and self1: "chat_dict self1 = AList.update k d (chat_dict self)" and acn1: "acn1 = Some client"
      by (auto simp: chatlog_step_agent split: sum.splits)
    from self1 have "map_of (chat_dict self1) k = Some d" by (simp add: update_conv')
    with chatlog_loop_frame(4) [OF l, of k] st1 have "map_of (chat_dict self') k = Some d" by simp
    with Cons.prems(2) have "map_of (chat_dict t) k = Some d" by simp
    then have "AList.update k d (chat_dict t) = chat_dict t" by (rule update_triv)
    with False b have step_t: "chatlog_step k c (t, acn) = Inr (t, Some client)"
      by (simp add: chatlog_step_agent)
    from l st1 acn1 have "chatlog_loop (Suc k) cls (self1, Some client) = Inr (self', acn')" by simp
    from Cons.IH [OF this later] step_t False show ?thesis by simp
  qed
qed

lemma client_loop_empties:
  "client_loop cd self = Inr self' \<Longrightarrow>
     client_loop cd t = Inr (t\<lparr>client_error_logs := client_error_logs t @ empties cd\<rparr>)"
proof (induction cd arbitrary: self t)
  case Nil
  then show ?case by simp
next
  case (Cons x cd)
  obtain key dialogue where x: "x = (key, dialogue)" by (cases x)
  from Cons.prems x obtain CSM KLT turns where keys: "map fst dialogue = [CSM, KLT]"
      and turns: "map_of dialogue KLT = Some turns"
    by (auto split: list.splits option.splits)
  show ?case
  proof (cases "length turns = 0")
    case True
    with Cons.prems x keys turns
    have "client_loop cd (self\<lparr>client_error_logs := client_error_logs self @ [key]\<rparr>) = Inr self'"
      by simp
    from Cons.IH [OF this, of "t\<lparr>client_error_logs := client_error_logs t @ [key]\<rparr>"]
      True x keys turns show ?thesis by simp
  next
    case False
    with Cons.prems x keys turns have "client_loop cd self = Inr self'" by simp
    from Cons.IH [OF this, of t] False x keys turns show ?thesis by simp
  qed
qed

lemma build_dialogue_pairs:
  assumes "build_dialogue c name acn = Inr (d, client)"
  shows "\<exists>v :: locals. d = AList.update client (client_sentences v) [(agent_name v, agent_sentences v)]
           \<and> length (agent_sentences v) + length (client_sentences v)
               = length (zip (collect_sentences (apply_chat_sentence_regex c) []) (apply_timestamp_regex c))"
proof -
  from assms obtain v where
    v: "sentence_loop 0 (zip (concat (map pick (apply_chat_sentence_regex c))) (apply_timestamp_regex c))
       \<lparr>agent_name = name, agent_sentences = [], client_sentences = [], actual_client_name = acn\<rparr> = Inr v"
    "d = AList.update client (client_sentences v) [(agent_name v, agent_sentences v)]"
    by (rule build_dialogue_Inr)
  from sentence_loop_count [OF v(1)]
  have "length (agent_sentences v) + length (client_sentences v)
          = length (zip (collect_sentences (apply_chat_sentence_regex c) []) (apply_timestamp_regex c))"
    by (simp add: collect_sentences_eq)
  with v(2)
  have "d = AList.update client (client_sentences v) [(agent_name v, agent_sentences v)]
           \<and> length (agent_sentences v) + length (client_sentences v)
               = length (zip (collect_sentences (apply_chat_sentence_regex c) []) (apply_timestamp_regex c))"
    by (rule conjI)
  then show ?thesis by (rule exI)
qed

lemma retained_entry:
  assumes run: "acquire_dialogue self = Inr (cd, self')" and i: "i < length (chatlogs self)"
    and agent: "apply_agent_regex (chatlogs self ! i) \<noteq> ''No agent''"
  shows "\<exists>agent al client kl. map_of cd i = Some [(agent, al), (client, kl)] \<and> agent \<noteq> client
           \<and> length al + length kl
               = length (zip (collect_sentences (apply_chat_sentence_regex (chatlogs self ! i)) [])
                             (apply_timestamp_regex (chatlogs self ! i)))
           \<and> length al + length kl
               = min (length (apply_chat_sentence_regex (chatlogs self ! i)))
                     (length (apply_timestamp_regex (chatlogs self ! i)))"
proof -
  let ?c = "chatlogs self ! i"
  from run obtain acn' where loop: "chatlog_loop 0 (chatlogs self) (self, None) = Inr (self', acn')"
      and cd: "cd = chat_dict self'"
    by (auto simp: acquire_dialogue_def split: sum.splits)
  from agent have f: "findall1 regex_agent_name ?c \<noteq> []" by (simp add: apply_agent_regex_none)
  from chatlog_loop_entry [OF loop i f] obtain acn d client where
      l: "label_ok acn" and b: "build_dialogue ?c (apply_agent_regex ?c) acn = Inr (d, client)"
      and m: "map_of (chat_dict self') i = Some d"
    by auto
  from agent have w: "list_all is_word (apply_agent_regex ?c)" by (rule apply_agent_regex_word)
  from build_dialogue_shape(1) [OF b w l] obtain a al kl where
      d: "d = [(a, al), (client, kl)]" and ne: "a \<noteq> client"
      and mn: "length al + length kl
               = min (length (apply_chat_sentence_regex ?c)) (length (apply_timestamp_regex ?c))"
    by blast
  from build_dialogue_pairs [OF b] obtain v :: locals where
      "d = AList.update client (client_sentences v) [(agent_name v, agent_sentences v)]"
      "length (agent_sentences v) + length (client_sentences v)
         = length (zip (collect_sentences (apply_chat_sentence_regex ?c) []) (apply_timestamp_regex ?c))"
    by blast
  with d ne have "length al + length kl
         = length (zip (collect_sentences (apply_chat_sentence_regex ?c) []) (apply_timestamp_regex ?c))"
    by (auto split: if_splits)
  with d ne mn m cd show ?thesis by blast
qed

lemma return_chatlogs_Inr:
  assumes "return_chatlogs self = Inr (corpus, self1)"
  obtains sA acn where "chatlog_loop 0 (chatlogs self) (self, None) = Inr (sA, acn)"
    and "client_loop (chat_dict sA) sA = Inr self1"
    and "corpus = filter (\<lambda>(k, v). k \<notin> set (client_error_logs self1)) (chat_dict self1)"
  using assms
  by (auto simp: return_chatlogs_def find_chatlogs_without_client_def acquire_dialogue_def
      split: sum.splits)

lemma no_agent_filter:
  "filter (\<lambda>c. findall1 regex_agent_name c = []) cls = filter (\<lambda>c. apply_agent_regex c = ''No agent'') cls"
  by (simp add: apply_agent_regex_none)

lemma chatlog_loop_no_agent_entry:
  assumes run: "chatlog_loop k cls st = Inr st'" and j: "j < length cls"
    and none: "findall1 regex_agent_name (cls ! j) = []"
  shows "map_of (chat_dict (fst st')) (k + j) = map_of (chat_dict (fst st)) (k + j)"
proof -
  from j have split: "cls = take j cls @ cls ! j # drop (Suc j) cls"
    by (rule id_take_nth_drop)
  from j have len: "length (take j cls) = j" by simp
  from run obtain st1 where
      pre: "chatlog_loop k (take j cls) st = Inr st1"
      and rest: "chatlog_loop (k + j) (cls ! j # drop (Suc j) cls) st1 = Inr st'"
    using chatlog_loop_append [of k "take j cls" "cls ! j # drop (Suc j) cls" st] split len
    by (auto split: sum.splits)
  from rest obtain st2 where
      step: "chatlog_step (k + j) (cls ! j) st1 = Inr st2"
      and post: "chatlog_loop (Suc (k + j)) (drop (Suc j) cls) st2 = Inr st'"
    by (auto split: sum.splits)
  from step none have "chat_dict (fst st2) = chat_dict (fst st1)"
    by (auto simp: chatlog_step_no_agent)
  with chatlog_loop_frame(4) [OF post, of "k + j"] chatlog_loop_frame(4) [OF pre, of "k + j"] len
  show ?thesis by simp
qed

lemma chatlog_loop_raises:
  assumes "c \<in> set cls" and "\<And>k st. \<exists>e. chatlog_step k c st = Inl e"
  shows "\<exists>e. chatlog_loop k cls st = Inl e"
  using assms(1)
proof (induction cls arbitrary: k st)
  case (Cons x cls)
  show ?case
  proof (cases "chatlog_step k x st")
    case (Inl e)
    then show ?thesis by simp
  next
    case (Inr st1)
    with assms(2) [of k st] have "x \<noteq> c" by auto
    with Cons.prems have "c \<in> set cls" by simp
    with Cons.IH [of "Suc k" st1] Inr show ?thesis by simp
  qed
qed simp

lemma map_of_filter_None: "map_of xs k = None \<Longrightarrow> map_of (filter P xs) k = None"
  by (auto simp: map_of_eq_None_iff)







section \<open>The claims\<close>

subsection \<open>C1: the example transcript\<close>

text \<open>
  C1 fails on the code. Its transcript writes the timestamps as \<^verbatim>\<open>(0s 10s)\<close>, as the
  comment at line 30 and the docstring of \<open>apply_timestamp_regex\<close> write theirs, which
  promise them returned. All three patterns ask for whitespace after the opening and before
  the closing parenthesis. So on this transcript the tokenizer finds no token where C1 has
  two, the extractor finds no span, nothing is paired, and \<open>return_chatlogs\<close> raises at
  line 143 where C1 has a Corpus entry. On the docstring's own example the tokenizer finds
  nothing either.
\<close>

theorem example_transcript_as_given:
  "apply_timestamp_regex ''Agent Jan zei: (0s 10s) Klant: hoi (10s 20s) Jan: hallo'' = []
   \<and> apply_chat_sentence_regex ''Agent Jan zei: (0s 10s) Klant: hoi (10s 20s) Jan: hallo'' = []
   \<and> return_chatlogs (new_process_chatlogs [''Agent Jan zei: (0s 10s) Klant: hoi (10s 20s) Jan: hallo''])
       = Inl UnboundLocalError
   \<and> apply_timestamp_regex
        ''(1m 30s) persoon: hoi allemaal (20m 20s) persoon hoe gaat het allemaal?'' = []"
  by code_simp

text \<open>
  The same transcript with whitespace inside the parentheses: two timestamp tokens, two
  spans (the text before the first timestamp is no span), and one Corpus entry, the agent
  key \<open>Jan\<close> with the one turn \<open>hallo\<close> and the client key \<open>Klant: \<close>, the prefix as
  captured, with the one turn \<open>hoi \<close>, the span without the prefix.
\<close>

theorem example_transcript_spaced:
  "apply_timestamp_regex ''Agent Jan zei: ( 0s 10s ) Klant: hoi ( 10s 20s ) Jan: hallo''
     = [''( 0s 10s )'', ''( 10s 20s )'']
   \<and> apply_chat_sentence_regex ''Agent Jan zei: ( 0s 10s ) Klant: hoi ( 10s 20s ) Jan: hallo''
     = [(''Klant: hoi '', ''''), ('''', ''Jan: hallo'')]
   \<and> return_chatlogs (new_process_chatlogs [''Agent Jan zei: ( 0s 10s ) Klant: hoi ( 10s 20s ) Jan: hallo''])
     = Inr ([(0, [(''Jan'', [(1, ''hallo'', ''( 10s 20s )'')]),
                  (''Klant: '', [(0, ''hoi '', ''( 0s 10s )'')])])],
            \<lparr>chatlogs = [''Agent Jan zei: ( 0s 10s ) Klant: hoi ( 10s 20s ) Jan: hallo''],
             chat_dict = [(0, [(''Jan'', [(1, ''hallo'', ''( 10s 20s )'')]),
                               (''Klant: '', [(0, ''hoi '', ''( 0s 10s )'')])])],
             agent_error_logs = [], client_error_logs = []\<rparr>)"
  by code_simp

subsection \<open>C2: the keys and the number of turns of a retained dialogue\<close>

text \<open>
  C2, as the code has it. When \<open>acquire_dialogue\<close> returns, the entry of every transcript
  with an agent is a dialogue of exactly two keys, the agent's first and a different one
  for the client, and the two turn lists together have one turn for every pair of
  \<open>zip(sentences, time_stamps)\<close>: a span whose prefix is the reserved label is counted
  too, as a turn of the agent.
\<close>

theorem retained_dialogue_counts_every_pair:
  assumes "acquire_dialogue self = Inr (cd, self')" and "i < length (chatlogs self)"
    and "apply_agent_regex (chatlogs self ! i) \<noteq> ''No agent''"
  shows "\<exists>agent al client kl. map_of cd i = Some [(agent, al), (client, kl)] \<and> agent \<noteq> client
           \<and> length al + length kl
               = length (zip (collect_sentences (apply_chat_sentence_regex (chatlogs self ! i)) [])
                             (apply_timestamp_regex (chatlogs self ! i)))"
  using retained_entry [OF assms] by blast

theorem retained_dialogue_counts_every_pair_witness:
  "acquire_dialogue
        (new_process_chatlogs [''Agent Jan ( 0s 10s ) Klantenservice: hallo ( 10s 20s ) Klant: hoi''])
     = Inr ([(0, [(''Klantenservice'', [(0, ''hallo '', ''( 0s 10s )'')]),
                  (''Klant: '', [(1, ''hoi'', ''( 10s 20s )'')])])],
            \<lparr>chatlogs = [''Agent Jan ( 0s 10s ) Klantenservice: hallo ( 10s 20s ) Klant: hoi''],
             chat_dict = [(0, [(''Klantenservice'', [(0, ''hallo '', ''( 0s 10s )'')]),
                               (''Klant: '', [(1, ''hoi'', ''( 10s 20s )'')])])],
             agent_error_logs = [], client_error_logs = []\<rparr>)
   \<and> (\<exists>agent al client kl.
         map_of [(0 :: nat, [(''Klantenservice'', [(0 :: nat, ''hallo '', ''( 0s 10s )'')]),
                  (''Klant: '', [(1, ''hoi'', ''( 10s 20s )'')])])] 0 = Some [(agent, al), (client, kl)]
         \<and> agent \<noteq> client \<and> length al + length kl = 2)"
proof -
  let ?c = "''Agent Jan ( 0s 10s ) Klantenservice: hallo ( 10s 20s ) Klant: hoi''"
  let ?d = "[(''Klantenservice'', [(0 :: nat, ''hallo '', ''( 0s 10s )'')]),
             (''Klant: '', [(1, ''hoi'', ''( 10s 20s )'')])]"
  let ?s = "\<lparr>chatlogs = [?c], chat_dict = [(0, ?d)], agent_error_logs = [], client_error_logs = []\<rparr>"
  have run: "acquire_dialogue (new_process_chatlogs [?c]) = Inr ([(0, ?d)], ?s)"
    by code_simp
  have i: "0 < length (chatlogs (new_process_chatlogs [?c]))"
    by (simp add: new_process_chatlogs_def)
  have agent: "apply_agent_regex (chatlogs (new_process_chatlogs [?c]) ! 0) \<noteq> ''No agent''"
    by code_simp
  have pairs: "length (zip (collect_sentences
                    (apply_chat_sentence_regex (chatlogs (new_process_chatlogs [?c]) ! 0)) [])
                 (apply_timestamp_regex (chatlogs (new_process_chatlogs [?c]) ! 0))) = 2"
    by code_simp
  from retained_dialogue_counts_every_pair [OF run i agent] pairs run show ?thesis
    by simp
qed

text \<open>
  C2 as stated fails: this transcript has two pairs, the first with the prefix
  \<open>Klantenservice: \<close>, and its dialogue has two turns, not one.
\<close>

theorem alias_span_is_counted:
  "zip (collect_sentences
          (apply_chat_sentence_regex ''Agent Jan ( 0s 10s ) Klantenservice: hallo ( 10s 20s ) Klant: hoi'') [])
       (apply_timestamp_regex ''Agent Jan ( 0s 10s ) Klantenservice: hallo ( 10s 20s ) Klant: hoi'')
     = [(''Klantenservice: hallo '', ''( 0s 10s )''), (''Klant: hoi'', ''( 10s 20s )'')]
   \<and> apply_client_regex ''Klantenservice: hallo '' = Inr ''Klantenservice: ''
   \<and> acquire_dialogue
        (new_process_chatlogs [''Agent Jan ( 0s 10s ) Klantenservice: hallo ( 10s 20s ) Klant: hoi''])
     = Inr ([(0, [(''Klantenservice'', [(0, ''hallo '', ''( 0s 10s )'')]),
                  (''Klant: '', [(1, ''hoi'', ''( 10s 20s )'')])])],
            \<lparr>chatlogs = [''Agent Jan ( 0s 10s ) Klantenservice: hallo ( 10s 20s ) Klant: hoi''],
             chat_dict = [(0, [(''Klantenservice'', [(0, ''hallo '', ''( 0s 10s )'')]),
                               (''Klant: '', [(1, ''hoi'', ''( 10s 20s )'')])])],
             agent_error_logs = [], client_error_logs = []\<rparr>)
   \<and> length [(0 :: nat, ''hallo '', ''( 0s 10s )'')] + length [(1 :: nat, ''hoi'', ''( 10s 20s )'')]
       \<noteq> 2 - (1 :: nat)"
  by code_simp

subsection \<open>C3: running \<open>return_chatlogs\<close> twice\<close>

text \<open>
  C3, as the code has it. When \<open>return_chatlogs\<close> has returned a Corpus and is called
  again on the object it left, it returns the same Corpus and leaves \<open>chatlogs\<close> and
  \<open>chat_dict\<close> as they were. The two logs are appended to and never cleared: the second
  run appends to \<open>agent_error_logs\<close> every transcript without an agent once more, and to
  \<open>client_error_logs\<close> once more every index it finds without client turns, as the first
  run did.
\<close>

theorem return_chatlogs_again:
  assumes "return_chatlogs self = Inr (corpus, self1)"
  shows "return_chatlogs self1 =
           Inr (corpus,
                self1\<lparr>agent_error_logs :=
                         agent_error_logs self1 @ filter (\<lambda>c. apply_agent_regex c = ''No agent'') (chatlogs self1),
                       client_error_logs := client_error_logs self1 @ empties (chat_dict self1)\<rparr>)
         \<and> chatlogs self1 = chatlogs self
         \<and> agent_error_logs self1 =
             agent_error_logs self @ filter (\<lambda>c. apply_agent_regex c = ''No agent'') (chatlogs self)
         \<and> client_error_logs self1 = client_error_logs self @ empties (chat_dict self1)"
proof -
  let ?A = "filter (\<lambda>c. findall1 regex_agent_name c = []) (chatlogs self)"
  from assms obtain sA acn where loop: "chatlog_loop 0 (chatlogs self) (self, None) = Inr (sA, acn)"
      and cl: "client_loop (chat_dict sA) sA = Inr self1"
      and corpus: "corpus = filter (\<lambda>(k, v). k \<notin> set (client_error_logs self1)) (chat_dict self1)"
    by (rule return_chatlogs_Inr)
  let ?E = "empties (chat_dict sA)"
  from client_loop_empties [OF cl, of sA] cl
  have self1: "self1 = sA\<lparr>client_error_logs := client_error_logs sA @ ?E\<rparr>" by simp
  from chatlog_loop_frame(1-3) [OF loop]
  have frame: "chatlogs sA = chatlogs self" "client_error_logs sA = client_error_logs self"
      "agent_error_logs sA = agent_error_logs self @ ?A"
    by simp_all
  let ?sB = "self1\<lparr>agent_error_logs := agent_error_logs self1 @ ?A\<rparr>"
  from self1 have "\<forall>i. 0 \<le> i \<longrightarrow> map_of (chat_dict self1) i = map_of (chat_dict sA) i" by simp
  with loop have "chatlog_loop 0 (chatlogs self) (self1, None) = Inr (?sB, acn)"
    by (rule chatlog_loop_rerun)
  with self1 frame(1) have acq: "acquire_dialogue self1 = Inr (chat_dict sA, ?sB)"
    by (simp add: acquire_dialogue_def)
  let ?s2 = "?sB\<lparr>client_error_logs := client_error_logs ?sB @ ?E\<rparr>"
  from client_loop_empties [OF cl, of ?sB]
  have "client_loop (chat_dict sA) ?sB = Inr ?s2" .
  with acq have ret: "return_chatlogs self1 =
      Inr (filter (\<lambda>(k, v). k \<notin> set (client_error_logs ?s2)) (chat_dict ?s2), ?s2)"
    by (simp add: return_chatlogs_def find_chatlogs_without_client_def)
  from self1 have "set (client_error_logs ?s2) = set (client_error_logs self1)" by auto
  with self1 corpus
  have "filter (\<lambda>(k, v). k \<notin> set (client_error_logs ?s2)) (chat_dict ?s2) = corpus" by simp
  with ret have "return_chatlogs self1 = Inr (corpus, ?s2)" by simp
  moreover from self1 frame(1) have "?s2 =
      self1\<lparr>agent_error_logs :=
               agent_error_logs self1 @ filter (\<lambda>c. apply_agent_regex c = ''No agent'') (chatlogs self1),
             client_error_logs := client_error_logs self1 @ empties (chat_dict self1)\<rparr>"
    by (simp add: no_agent_filter)
  moreover from self1 frame have "chatlogs self1 = chatlogs self"
      "agent_error_logs self1 =
         agent_error_logs self @ filter (\<lambda>c. apply_agent_regex c = ''No agent'') (chatlogs self)"
      "client_error_logs self1 = client_error_logs self @ empties (chat_dict self1)"
    by (simp_all add: no_agent_filter)
  ultimately show ?thesis by simp
qed

theorem return_chatlogs_again_witness:
  "return_chatlogs (new_process_chatlogs [''Agent Jan ( 0s 10s ) Klant: hoi'', ''geen''])
     = Inr ([(0, [(''Jan'', []), (''Klant: '', [(0, ''hoi'', ''( 0s 10s )'')])])],
            \<lparr>chatlogs = [''Agent Jan ( 0s 10s ) Klant: hoi'', ''geen''],
             chat_dict = [(0, [(''Jan'', []), (''Klant: '', [(0, ''hoi'', ''( 0s 10s )'')])])],
             agent_error_logs = [''geen''], client_error_logs = []\<rparr>)
   \<and> return_chatlogs
        \<lparr>chatlogs = [''Agent Jan ( 0s 10s ) Klant: hoi'', ''geen''],
         chat_dict = [(0, [(''Jan'', []), (''Klant: '', [(0, ''hoi'', ''( 0s 10s )'')])])],
         agent_error_logs = [''geen''], client_error_logs = []\<rparr>
     = Inr ([(0, [(''Jan'', []), (''Klant: '', [(0, ''hoi'', ''( 0s 10s )'')])])],
            \<lparr>chatlogs = [''Agent Jan ( 0s 10s ) Klant: hoi'', ''geen''],
             chat_dict = [(0, [(''Jan'', []), (''Klant: '', [(0, ''hoi'', ''( 0s 10s )'')])])],
             agent_error_logs = [''geen'', ''geen''], client_error_logs = []\<rparr>)"
proof -
  let ?cls = "[''Agent Jan ( 0s 10s ) Klant: hoi'', ''geen'']"
  let ?cd = "[(0 :: nat, [(''Jan'', []), (''Klant: '', [(0 :: nat, ''hoi'', ''( 0s 10s )'')])])]"
  let ?s1 = "\<lparr>chatlogs = ?cls, chat_dict = ?cd, agent_error_logs = [''geen''], client_error_logs = []\<rparr>"
  have first: "return_chatlogs (new_process_chatlogs ?cls) = Inr (?cd, ?s1)"
    by code_simp
  have a: "filter (\<lambda>c. apply_agent_regex c = ''No agent'') (chatlogs ?s1) = [''geen'']"
    by code_simp
  have e: "empties (chat_dict ?s1) = []"
    by code_simp
  from return_chatlogs_again [OF first] have
    "return_chatlogs ?s1 =
       Inr (?cd, ?s1\<lparr>agent_error_logs :=
                        agent_error_logs ?s1 @ filter (\<lambda>c. apply_agent_regex c = ''No agent'') (chatlogs ?s1),
                      client_error_logs := client_error_logs ?s1 @ empties (chat_dict ?s1)\<rparr>)"
    by (rule conjunct1)
  with a e have "return_chatlogs ?s1 =
       Inr (?cd, \<lparr>chatlogs = ?cls, chat_dict = ?cd, agent_error_logs = [''geen'', ''geen''],
                 client_error_logs = []\<rparr>)"
    by simp
  with first show ?thesis by (rule conjI)
qed

text \<open>
  C3 as stated fails: after the second run each log holds its entries twice.
\<close>

theorem second_run_logs_again:
  "return_chatlogs
     (new_process_chatlogs
        [''Agent Jan ( 0s 10s ) Klant: hoi'', ''Agent Jan ( 0s 10s ) Jan: hallo'', ''geen''])
     = Inr ([(0, [(''Jan'', []), (''Klant: '', [(0, ''hoi'', ''( 0s 10s )'')])])],
            \<lparr>chatlogs = [''Agent Jan ( 0s 10s ) Klant: hoi'', ''Agent Jan ( 0s 10s ) Jan: hallo'', ''geen''],
             chat_dict = [(0, [(''Jan'', []), (''Klant: '', [(0, ''hoi'', ''( 0s 10s )'')])]),
                          (1, [(''Jan'', [(0, ''hallo'', ''( 0s 10s )'')]), (''Klant: '', [])])],
             agent_error_logs = [''geen''], client_error_logs = [1]\<rparr>)
   \<and> return_chatlogs
        \<lparr>chatlogs = [''Agent Jan ( 0s 10s ) Klant: hoi'', ''Agent Jan ( 0s 10s ) Jan: hallo'', ''geen''],
         chat_dict = [(0, [(''Jan'', []), (''Klant: '', [(0, ''hoi'', ''( 0s 10s )'')])]),
                      (1, [(''Jan'', [(0, ''hallo'', ''( 0s 10s )'')]), (''Klant: '', [])])],
         agent_error_logs = [''geen''], client_error_logs = [1]\<rparr>
     = Inr ([(0, [(''Jan'', []), (''Klant: '', [(0, ''hoi'', ''( 0s 10s )'')])])],
            \<lparr>chatlogs = [''Agent Jan ( 0s 10s ) Klant: hoi'', ''Agent Jan ( 0s 10s ) Jan: hallo'', ''geen''],
             chat_dict = [(0, [(''Jan'', []), (''Klant: '', [(0, ''hoi'', ''( 0s 10s )'')])]),
                          (1, [(''Jan'', [(0, ''hallo'', ''( 0s 10s )'')]), (''Klant: '', [])])],
             agent_error_logs = [''geen'', ''geen''], client_error_logs = [1, 1]\<rparr>)"
  by code_simp

subsection \<open>C4: a transcript without an agent\<close>

text \<open>
  C4. When agent extraction finds no match in a transcript, the loop body appends that
  very string to \<open>agent_error_logs\<close> and changes nothing else, whatever the index and the
  state. So when \<open>return_chatlogs\<close> returns, the transcript is in \<open>agent_error_logs\<close>,
  \<open>chat_dict\<close> holds at its index what it held before the call, and if that was nothing,
  neither \<open>chat_dict\<close> nor the Corpus returned has an entry for the index.
\<close>

theorem no_agent_logged:
  assumes "findall1 regex_agent_name chatlog = []"
  shows "chatlog_step chat_index chatlog (self, acn)
           = Inr (self\<lparr>agent_error_logs := agent_error_logs self @ [chatlog]\<rparr>, acn)
         \<and> (\<forall>s corpus s' i. return_chatlogs s = Inr (corpus, s') \<longrightarrow> i < length (chatlogs s)
               \<longrightarrow> chatlogs s ! i = chatlog \<longrightarrow>
                 chatlog \<in> set (agent_error_logs s')
                 \<and> map_of (chat_dict s') i = map_of (chat_dict s) i
                 \<and> (map_of (chat_dict s) i = None \<longrightarrow> map_of corpus i = None))"
proof (intro conjI allI impI)
  show "chatlog_step chat_index chatlog (self, acn)
           = Inr (self\<lparr>agent_error_logs := agent_error_logs self @ [chatlog]\<rparr>, acn)"
    using assms by (simp add: chatlog_step_no_agent)
next
  fix s corpus s' i
  assume ret: "return_chatlogs s = Inr (corpus, s')" and i: "i < length (chatlogs s)"
    and c: "chatlogs s ! i = chatlog"
  from ret obtain sA a where loop: "chatlog_loop 0 (chatlogs s) (s, None) = Inr (sA, a)"
      and cl: "client_loop (chat_dict sA) sA = Inr s'"
      and corpus: "corpus = filter (\<lambda>(k, v). k \<notin> set (client_error_logs s')) (chat_dict s')"
    by (rule return_chatlogs_Inr)
  from client_loop_empties [OF cl, of sA] cl
  have s': "s' = sA\<lparr>client_error_logs := client_error_logs sA @ empties (chat_dict sA)\<rparr>" by simp
  from i c have "chatlog \<in> set (chatlogs s)" by auto
  with chatlog_loop_frame(3) [OF loop] assms s'
  show "chatlog \<in> set (agent_error_logs s')" by simp
  from chatlog_loop_no_agent_entry [OF loop i] assms c s'
  show same: "map_of (chat_dict s') i = map_of (chat_dict s) i" by simp
  assume "map_of (chat_dict s) i = None"
  with same corpus show "map_of corpus i = None" by (simp add: map_of_filter_None)
qed

theorem no_agent_logged_witness:
  "findall1 regex_agent_name ''geen'' = []
   \<and> chatlog_step 0 ''geen'' (new_process_chatlogs [''geen''], None)
       = Inr ((new_process_chatlogs [''geen''])
                \<lparr>agent_error_logs := agent_error_logs (new_process_chatlogs [''geen'']) @ [''geen'']\<rparr>, None)
   \<and> return_chatlogs (new_process_chatlogs [''geen''])
       = Inr ([], \<lparr>chatlogs = [''geen''], chat_dict = [], agent_error_logs = [''geen''],
                  client_error_logs = []\<rparr>)
   \<and> ''geen'' \<in> set [''geen'']
   \<and> map_of ([] :: (nat \<times> dialogue) list) 0 = None"
proof -
  let ?s = "new_process_chatlogs [''geen'']"
  let ?s' = "\<lparr>chatlogs = [''geen''], chat_dict = [], agent_error_logs = [''geen''],
              client_error_logs = []\<rparr>"
  have none: "findall1 regex_agent_name ''geen'' = []" by code_simp
  have ret: "return_chatlogs ?s = Inr ([], ?s')" by code_simp
  have i: "0 < length (chatlogs ?s)" "chatlogs ?s ! 0 = ''geen''" "map_of (chat_dict ?s) 0 = None"
    by (simp_all add: new_process_chatlogs_def)
  from no_agent_logged [OF none, of 0 ?s None] ret i
  have "chatlog_step 0 ''geen'' (?s, None)
          = Inr (?s\<lparr>agent_error_logs := agent_error_logs ?s @ [''geen'']\<rparr>, None)"
    and "''geen'' \<in> set (agent_error_logs ?s')" and "map_of ([] :: (nat \<times> dialogue) list) 0 = None"
    by blast+
  with none ret show ?thesis by simp
qed

subsection \<open>C5: a span without a name prefix\<close>

text \<open>
  C5. When a paired span holds no colon followed by whitespace, client-name extraction
  raises IndexError on it, and the error is not caught: building the dialogue raises it,
  for a transcript with an agent the loop body raises it, and \<open>acquire_dialogue\<close> and
  \<open>return_chatlogs\<close> raise on every list of transcripts that holds such a transcript
  (this error, or the error of a transcript before it).
\<close>

theorem malformed_span_raises:
  assumes "(sentence, timestamp)
             \<in> set (zip (collect_sentences (apply_chat_sentence_regex chatlog) [])
                         (apply_timestamp_regex chatlog))"
    and "\<not> colon_space sentence"
  shows "apply_client_regex sentence = Inl IndexError
         \<and> build_dialogue chatlog name acn = Inl IndexError
         \<and> (apply_agent_regex chatlog \<noteq> ''No agent'' \<longrightarrow>
              chatlog_step chat_index chatlog st = Inl IndexError
              \<and> (\<forall>self. chatlog \<in> set (chatlogs self) \<longrightarrow>
                    (\<exists>e. acquire_dialogue self = Inl e) \<and> (\<exists>e. return_chatlogs self = Inl e)))"
proof (intro conjI allI impI)
  have "findall1 regex_client_name sentence = []"
  proof (cases "findall1 regex_client_name sentence")
    case (Cons x xs)
    then have "x \<in> set (findall1 regex_client_name sentence)" by simp
    with client_name_shape(2) assms(2) show ?thesis by blast
  qed simp
  then show "apply_client_regex sentence = Inl IndexError"
    by (simp add: apply_client_regex_def)
  from assms have "\<exists>pair \<in> set (zip (collect_sentences (apply_chat_sentence_regex chatlog) [])
                         (apply_timestamp_regex chatlog)). \<not> colon_space (fst pair)"
    by force
  then show b: "build_dialogue chatlog name acn = Inl IndexError" for name acn
    by (simp add: build_dialogue_def Let_def sentence_loop_no_colon)
  assume agent: "apply_agent_regex chatlog \<noteq> ''No agent''"
  then have step: "chatlog_step k chatlog st = Inl IndexError" for k st
    using b by (simp add: chatlog_step_def Let_def)
  then show "chatlog_step chat_index chatlog st = Inl IndexError" .
  fix self :: process_chatlogs
  assume "chatlog \<in> set (chatlogs self)"
  with step have "\<exists>e. chatlog_loop 0 (chatlogs self) (self, None) = Inl e"
    by (intro chatlog_loop_raises) auto
  then show acq: "\<exists>e. acquire_dialogue self = Inl e"
    by (auto simp: acquire_dialogue_def)
  then show "\<exists>e. return_chatlogs self = Inl e"
    by (auto simp: return_chatlogs_def find_chatlogs_without_client_def)
qed

theorem malformed_span_raises_witness:
  "(''hallo'', ''( 0s 10s )'')
      \<in> set (zip (collect_sentences (apply_chat_sentence_regex ''Agent Jan ( 0s 10s ) hallo'') [])
                  (apply_timestamp_regex ''Agent Jan ( 0s 10s ) hallo''))
   \<and> \<not> colon_space ''hallo''
   \<and> apply_agent_regex ''Agent Jan ( 0s 10s ) hallo'' = ''Jan''
   \<and> apply_client_regex ''hallo'' = Inl IndexError
   \<and> build_dialogue ''Agent Jan ( 0s 10s ) hallo'' ''Jan'' None = Inl IndexError
   \<and> chatlog_step 0 ''Agent Jan ( 0s 10s ) hallo''
        (new_process_chatlogs [''Agent Jan ( 0s 10s ) hallo''], None) = Inl IndexError
   \<and> (\<exists>e. acquire_dialogue (new_process_chatlogs [''Agent Jan ( 0s 10s ) hallo'']) = Inl e)
   \<and> (\<exists>e. return_chatlogs (new_process_chatlogs [''Agent Jan ( 0s 10s ) hallo'']) = Inl e)"
proof -
  let ?c = "''Agent Jan ( 0s 10s ) hallo''"
  have pair: "(''hallo'', ''( 0s 10s )'')
      \<in> set (zip (collect_sentences (apply_chat_sentence_regex ?c) []) (apply_timestamp_regex ?c))"
    by code_simp
  have bad: "\<not> colon_space ''hallo''" by code_simp
  have agent: "apply_agent_regex ?c = ''Jan''" by code_simp
  then have agent': "apply_agent_regex ?c \<noteq> ''No agent''" by simp
  have mem: "?c \<in> set (chatlogs (new_process_chatlogs [?c]))"
    by (simp add: new_process_chatlogs_def)
  from malformed_span_raises [OF pair bad, of "''Jan''" None 0 "(new_process_chatlogs [?c], None)"]
    agent' mem
  have "apply_client_regex ''hallo'' = Inl IndexError"
    and "build_dialogue ?c ''Jan'' None = Inl IndexError"
    and "chatlog_step 0 ?c (new_process_chatlogs [?c], None) = Inl IndexError"
    and "\<exists>e. acquire_dialogue (new_process_chatlogs [?c]) = Inl e"
    and "\<exists>e. return_chatlogs (new_process_chatlogs [?c]) = Inl e"
    by blast+
  with pair bad agent show ?thesis by blast
qed

subsection \<open>C6: more timestamps than spans, or fewer\<close>

text \<open>
  C6, as the code has it. Let \<open>acquire_dialogue\<close> return. Then, for every transcript
  with an agent, with N the number of timestamp tokens and M the number of spans the
  extractor returns, the two turn lists of its dialogue hold min(N, M) turns together;
  this holds when N and M differ and also when they are equal.
\<close>

theorem truncation_law:
  assumes "acquire_dialogue self = Inr (cd, self')" and "i < length (chatlogs self)"
    and "apply_agent_regex (chatlogs self ! i) \<noteq> ''No agent''"
  shows "\<exists>agent al client kl. map_of cd i = Some [(agent, al), (client, kl)]
           \<and> length al + length kl
               = min (length (apply_timestamp_regex (chatlogs self ! i)))
                     (length (apply_chat_sentence_regex (chatlogs self ! i)))"
proof -
  from retained_entry [OF assms] obtain agent al client kl where
      "map_of cd i = Some [(agent, al), (client, kl)]"
      "length al + length kl
         = min (length (apply_chat_sentence_regex (chatlogs self ! i)))
               (length (apply_timestamp_regex (chatlogs self ! i)))"
    by blast
  then show ?thesis by (simp add: min.commute)
qed

theorem truncation_law_witness:
  "acquire_dialogue (new_process_chatlogs [''Agent Jan 5s ) Klant: hoi ( 10s 20s ) Jan: hallo''])
     = Inr ([(0, [(''Jan'', []), (''Klant: '', [(0, ''hoi '', ''( 10s 20s )'')])])],
            \<lparr>chatlogs = [''Agent Jan 5s ) Klant: hoi ( 10s 20s ) Jan: hallo''],
             chat_dict = [(0, [(''Jan'', []), (''Klant: '', [(0, ''hoi '', ''( 10s 20s )'')])])],
             agent_error_logs = [], client_error_logs = []\<rparr>)
   \<and> length (apply_timestamp_regex ''Agent Jan 5s ) Klant: hoi ( 10s 20s ) Jan: hallo'') = 1
   \<and> length (apply_chat_sentence_regex ''Agent Jan 5s ) Klant: hoi ( 10s 20s ) Jan: hallo'') = 2
   \<and> (\<exists>agent al client kl.
         map_of [(0 :: nat, [(''Jan'', []), (''Klant: '', [(0 :: nat, ''hoi '', ''( 10s 20s )'')])])] 0
           = Some [(agent, al), (client, kl)]
         \<and> length al + length kl = min 1 2)"
proof -
  let ?c = "''Agent Jan 5s ) Klant: hoi ( 10s 20s ) Jan: hallo''"
  let ?d = "[(''Jan'', []), (''Klant: '', [(0 :: nat, ''hoi '', ''( 10s 20s )'')])]"
  let ?s = "\<lparr>chatlogs = [?c], chat_dict = [(0, ?d)], agent_error_logs = [], client_error_logs = []\<rparr>"
  have run: "acquire_dialogue (new_process_chatlogs [?c]) = Inr ([(0, ?d)], ?s)"
    by code_simp
  have i: "0 < length (chatlogs (new_process_chatlogs [?c]))"
    by (simp add: new_process_chatlogs_def)
  have c: "chatlogs (new_process_chatlogs [?c]) ! 0 = ?c"
    by (simp add: new_process_chatlogs_def)
  have agent: "apply_agent_regex (chatlogs (new_process_chatlogs [?c]) ! 0) \<noteq> ''No agent''"
    by code_simp
  have n: "length (apply_timestamp_regex ?c) = 1" by code_simp
  have m: "length (apply_chat_sentence_regex ?c) = 2" by code_simp
  from truncation_law [OF run i agent] c n m
  have "\<exists>agent al client kl. map_of [(0 :: nat, ?d)] 0 = Some [(agent, al), (client, kl)]
         \<and> length al + length kl = min 1 2"
    by simp
  with run n m show ?thesis by blast
qed

text \<open>
  C6 as stated fails: it has min(N, M) turns for every transcript with N and M different.
  This transcript has an agent, one timestamp token and two spans, and its one paired span
  has no name prefix: building the dialogue raises IndexError and no turn is produced.
\<close>

theorem malformed_span_no_turns:
  "apply_agent_regex ''Agent Jan 5s ) hallo ( 10s 20s ) Klant: x'' = ''Jan''
   \<and> length (apply_timestamp_regex ''Agent Jan 5s ) hallo ( 10s 20s ) Klant: x'') = 1
   \<and> length (apply_chat_sentence_regex ''Agent Jan 5s ) hallo ( 10s 20s ) Klant: x'') = 2
   \<and> build_dialogue ''Agent Jan 5s ) hallo ( 10s 20s ) Klant: x'' ''Jan'' None = Inl IndexError
   \<and> acquire_dialogue (new_process_chatlogs [''Agent Jan 5s ) hallo ( 10s 20s ) Klant: x''])
       = Inl IndexError
   \<and> return_chatlogs (new_process_chatlogs [''Agent Jan 5s ) hallo ( 10s 20s ) Klant: x''])
       = Inl IndexError"
  by code_simp

subsection \<open>C7: the reserved service label\<close>

text \<open>
  C7. Let the prefix extracted from a paired span be \<open>Klantenservice: \<close>. Whatever pairs
  came before it and however many after it the loop has gone through since, \<open>agent_name\<close>
  is \<open>Klantenservice\<close> from then on: the next pair is filed under the agent exactly when
  it contains \<open>Klantenservice: \<close>, and leaves the name as it is. The first key of the
  dialogue built from a transcript with such a paired span, the agent's, is \<open>Klantenservice\<close>.
\<close>

theorem alias_law:
  assumes label: "apply_client_regex sentence = Inr ''Klantenservice: ''"
    and run: "sentence_loop k (before @ (sentence, timestamp) # mid) v = Inr v1"
  shows "agent_name v1 = ''Klantenservice''
         \<and> (\<forall>j pair v2. sentence_step j pair v1 = Inr v2 \<longrightarrow>
               agent_name v2 = ''Klantenservice''
               \<and> (length (agent_sentences v2) = Suc (length (agent_sentences v1)))
                   = contains ''Klantenservice: '' (fst pair))
         \<and> (\<forall>chatlog name acn d client.
               build_dialogue chatlog name acn = Inr (d, client) \<longrightarrow>
               (sentence, timestamp)
                 \<in> set (zip (collect_sentences (apply_chat_sentence_regex chatlog) [])
                             (apply_timestamp_regex chatlog)) \<longrightarrow>
               fst (hd d) = ''Klantenservice'')"
proof (intro conjI allI impI)
  have "(sentence, timestamp) \<in> set (before @ (sentence, timestamp) # mid)" by simp
  with run label show a1: "agent_name v1 = ''Klantenservice''"
    using sentence_loop_alias [of k _ v v1 "(sentence, timestamp)"] by simp
  fix j pair v2
  assume step: "sentence_step j pair v1 = Inr v2"
  with a1 sentence_step_agent [OF step] show "agent_name v2 = ''Klantenservice''"
    by (simp split: if_splits)
  from step a1 show "(length (agent_sentences v2) = Suc (length (agent_sentences v1)))
                   = contains ''Klantenservice: '' (fst pair)"
    by (auto simp: sentence_step_def Let_def split: list.splits if_splits)
next
  fix chatlog name acn d client
  assume b: "build_dialogue chatlog name acn = Inr (d, client)"
    and p: "(sentence, timestamp)
                 \<in> set (zip (collect_sentences (apply_chat_sentence_regex chatlog) [])
                             (apply_timestamp_regex chatlog))"
  from b obtain w where
    w: "sentence_loop 0 (zip (concat (map pick (apply_chat_sentence_regex chatlog))) (apply_timestamp_regex chatlog))
       \<lparr>agent_name = name, agent_sentences = [], client_sentences = [], actual_client_name = acn\<rparr> = Inr w"
    "d = AList.update client (client_sentences w) [(agent_name w, agent_sentences w)]"
    by (rule build_dialogue_Inr)
  from p have "(sentence, timestamp)
      \<in> set (zip (concat (map pick (apply_chat_sentence_regex chatlog))) (apply_timestamp_regex chatlog))"
    by (simp add: collect_sentences_eq)
  with sentence_loop_alias [OF w(1), of "(sentence, timestamp)"] label
  have "agent_name w = ''Klantenservice''" by simp
  with w(2) show "fst (hd d) = ''Klantenservice''" by simp
qed


theorem alias_law_witness:
  "apply_client_regex ''Klantenservice: hallo '' = Inr ''Klantenservice: ''
   \<and> sentence_loop 0 ([] @ (''Klantenservice: hallo '', ''( 0s 10s )'') # [])
        \<lparr>agent_name = ''Jan'', agent_sentences = [], client_sentences = [], actual_client_name = None\<rparr>
       = Inr \<lparr>agent_name = ''Klantenservice'', agent_sentences = [(0, ''hallo '', ''( 0s 10s )'')],
              client_sentences = [], actual_client_name = None\<rparr>
   \<and> sentence_step 1 (''Klant: hoi'', ''( 10s 20s )'')
        \<lparr>agent_name = ''Klantenservice'', agent_sentences = [(0, ''hallo '', ''( 0s 10s )'')],
         client_sentences = [], actual_client_name = None\<rparr>
       = Inr \<lparr>agent_name = ''Klantenservice'', agent_sentences = [(0, ''hallo '', ''( 0s 10s )'')],
              client_sentences = [(1, ''hoi'', ''( 10s 20s )'')], actual_client_name = Some ''Klant: ''\<rparr>
   \<and> \<not> contains ''Klantenservice: '' ''Klant: hoi''
   \<and> build_dialogue ''Agent Jan ( 0s 10s ) Klantenservice: hallo ( 10s 20s ) Klant: hoi'' ''Jan'' None
       = Inr ([(''Klantenservice'', [(0, ''hallo '', ''( 0s 10s )'')]),
               (''Klant: '', [(1, ''hoi'', ''( 10s 20s )'')])], ''Klant: '')
   \<and> fst (hd [(''Klantenservice'', [(0 :: nat, ''hallo '', ''( 0s 10s )'')]),
               (''Klant: '', [(1, ''hoi'', ''( 10s 20s )'')])]) = ''Klantenservice''"
proof -
  let ?c = "''Agent Jan ( 0s 10s ) Klantenservice: hallo ( 10s 20s ) Klant: hoi''"
  let ?v = "\<lparr>agent_name = ''Jan'', agent_sentences = [], client_sentences = [],
             actual_client_name = None\<rparr>"
  let ?v1 = "\<lparr>agent_name = ''Klantenservice'', agent_sentences = [(0, ''hallo '', ''( 0s 10s )'')],
              client_sentences = [], actual_client_name = None\<rparr>"
  let ?v2 = "\<lparr>agent_name = ''Klantenservice'', agent_sentences = [(0, ''hallo '', ''( 0s 10s )'')],
              client_sentences = [(1, ''hoi'', ''( 10s 20s )'')], actual_client_name = Some ''Klant: ''\<rparr>"
  let ?d = "[(''Klantenservice'', [(0 :: nat, ''hallo '', ''( 0s 10s )'')]),
             (''Klant: '', [(1, ''hoi'', ''( 10s 20s )'')])]"
  have label: "apply_client_regex ''Klantenservice: hallo '' = Inr ''Klantenservice: ''"
    by code_simp
  have run: "sentence_loop 0 ([] @ (''Klantenservice: hallo '', ''( 0s 10s )'') # []) ?v = Inr ?v1"
    by code_simp
  have step: "sentence_step 1 (''Klant: hoi'', ''( 10s 20s )'') ?v1 = Inr ?v2"
    by code_simp
  have b: "build_dialogue ?c ''Jan'' None = Inr (?d, ''Klant: '')"
    by code_simp
  have p: "(''Klantenservice: hallo '', ''( 0s 10s )'')
             \<in> set (zip (collect_sentences (apply_chat_sentence_regex ?c) []) (apply_timestamp_regex ?c))"
    by code_simp
  note law = alias_law [OF label run]
  from law step have "(length (agent_sentences ?v2) = Suc (length (agent_sentences ?v1)))
      = contains ''Klantenservice: '' (fst (''Klant: hoi'', ''( 10s 20s )''))"
    by blast
  then have n: "\<not> contains ''Klantenservice: '' ''Klant: hoi''" by simp
  from law b p have k: "fst (hd ?d) = ''Klantenservice''" by blast
  from label run step n b k show ?thesis by blast
qed

subsection \<open>C8: a monologue of the agent\<close>

text \<open>
  C8 fails on the code for a monologue that comes before any client turn. The object is
  new and holds one transcript; an agent is found, the one paired span carries the agent's
  prefix, so nothing is ever assigned to \<open>actual_client_name\<close>, and \<open>return_chatlogs\<close>
  raises at line 143 where C8 has it log index 0 in \<open>client_error_logs\<close> and return a Corpus
  without it.
\<close>

theorem monologue_first_raises:
  "apply_agent_regex ''Agent Jan ( 0s 10s ) Jan: hallo'' = ''Jan''
   \<and> zip (collect_sentences (apply_chat_sentence_regex ''Agent Jan ( 0s 10s ) Jan: hallo'') [])
          (apply_timestamp_regex ''Agent Jan ( 0s 10s ) Jan: hallo'')
       = [(''Jan: hallo'', ''( 0s 10s )'')]
   \<and> contains ''Jan: '' ''Jan: hallo''
   \<and> return_chatlogs (new_process_chatlogs [''Agent Jan ( 0s 10s ) Jan: hallo''])
       = Inl UnboundLocalError"
  by code_simp

subsection \<open>C9: the two slots of a span\<close>

text \<open>
  C9, as the code has it. In every tuple that the extractor returns, for every transcript,
  at most one of the two slots is not empty: the interior slot or the trailing slot is the
  empty string.
\<close>

theorem spans_at_most_one_slot:
  "list_all (\<lambda>(interior, trailing). interior = [] \<or> trailing = [])
     (apply_chat_sentence_regex chatlog)"
  using slots_not_both by (auto simp: list_all_iff apply_chat_sentence_regex_def)


text \<open>
  C9 as stated fails: where one timestamp follows another the interior span is empty, and
  both slots of the first tuple are.
\<close>

theorem both_slots_empty:
  "apply_chat_sentence_regex ''( 1s ) ( 2s ) x'' = [([], []), ([], ''x'')]"
  by code_simp

subsection \<open>C10: the client label is carried from transcript to transcript\<close>



end
